theory Spec2Isabelle
  imports Complex_Main "HOL-Library.AList" "HOL-Library.Word"
begin

section \<open>Documents and field values\<close>

text \<open>
  The pipeline moves vessel-tracking records between a flat file and a document store.
  A record is a Python \<^verbatim>\<open>dict\<close> from field names to scalar values. Python dictionaries
  keep insertion order and have one entry per key, so a document is an association
  list, read through \<open>map_of\<close>; \<open>AList.delete\<close> is \<^verbatim>\<open>del doc[k]\<close> and \<open>AList.update\<close> is
  \<^verbatim>\<open>doc[k] = v\<close> (the position of an existing key is kept).

  Field values are the scalars the ingestion script stores (strings, integers, floats and
  booleans read from the CSV file), the null value, and the object identifier the store
  puts under \<^verbatim>\<open>_id\<close>. Integers are the 64-bit integers of the store, so converting one to
  a float never overflows.

  A float is not-a-number, an infinity, or finite. A finite float is represented by the
  rational it denotes; the rounding of a decimal literal to the nearest binary64 value
  (and overflow to an infinity) is not part of this model. Nothing below depends on it:
  the code only asks of a float whether it is not-a-number.
\<close>

datatype pyfloat = NaN | PosInf | NegInf | Finite rat

datatype pyval =
    VNone
  | VBool bool
  | VInt "64 word"
  | VFloat pyfloat
  | VStr string
  | VObjectId nat

type_synonym doc = "(string \<times> pyval) list"

subsection \<open>The built-ins the filter calls\<close>

text \<open>
  A character is a code point below 256. \<^verbatim>\<open>str.lower\<close> on these: the capital letters
  of ASCII and of Latin-1 (the multiplication sign, 215, is not a letter).
\<close>

definition to_lower :: "char \<Rightarrow> char" where
  "to_lower c =
     (let n = (of_char c :: nat)
      in if (65 \<le> n \<and> n \<le> 90) \<or> (192 \<le> n \<and> n \<le> 222 \<and> n \<noteq> 215) then char_of (n + 32)
         else c)"

definition lower :: "string \<Rightarrow> string" where
  "lower s = map to_lower s"

text \<open>
  \<^verbatim>\<open>str(v).lower() == 'nan'\<close>. The text of a string is the string itself; the text of a
  float is \<^verbatim>\<open>nan\<close> exactly when the float is not-a-number (a finite float prints digits,
  an infinity prints \<^verbatim>\<open>inf\<close>); an integer prints digits, a boolean \<^verbatim>\<open>True\<close> or
  \<^verbatim>\<open>False\<close>, the null value \<^verbatim>\<open>None\<close> and an object identifier 24 hexadecimal digits.
\<close>

fun str_lower_is_nan :: "pyval \<Rightarrow> bool" where
  "str_lower_is_nan (VStr s) = (lower s = ''nan'')"
| "str_lower_is_nan (VFloat f) = (f = NaN)"
| "str_lower_is_nan _ = False"

text \<open>\<^verbatim>\<open>pd.isna\<close> on a scalar: true of the null value and of a not-a-number float.\<close>

fun pd_isna :: "pyval \<Rightarrow> bool" where
  "pd_isna VNone = True"
| "pd_isna (VFloat f) = (f = NaN)"
| "pd_isna _ = False"

text \<open>
  \<^verbatim>\<open>float(s)\<close> on a string, after the language reference: surrounding whitespace is
  stripped; an underscore may stand between two digits; then an optional sign and
  either \<^verbatim>\<open>inf\<close>, \<^verbatim>\<open>infinity\<close> or \<^verbatim>\<open>nan\<close> in any case, or a decimal number with an
  optional exponent. \<open>None\<close> is \<^verbatim>\<open>ValueError\<close>.

  The whitespace that is stripped: the six blanks of ASCII (tab to carriage return, and
  the space) and, of the code points from 128 on, the two that are whitespace (133 and
  160), which the conversion first turns into spaces. The separators 28 to 31 are not
  stripped. Any other character from 127 on makes the conversion fail, as it does here:
  it is no digit.
\<close>

definition is_space :: "char \<Rightarrow> bool" where
  "is_space c =
     (let n = (of_char c :: nat) in (9 \<le> n \<and> n \<le> 13) \<or> n = 32 \<or> n = 133 \<or> n = 160)"

definition is_digit :: "char \<Rightarrow> bool" where
  "is_digit c = (let n = (of_char c :: nat) in 48 \<le> n \<and> n \<le> 57)"

definition strip :: "string \<Rightarrow> string" where
  "strip s = rev (dropWhile is_space (rev (dropWhile is_space s)))"

text \<open>
  Underscores: each one must have a digit before it and a digit after it; they are then
  dropped. The first argument is whether the previous character was a digit.
\<close>

fun drop_underscores :: "bool \<Rightarrow> string \<Rightarrow> string option" where
  "drop_underscores prev [] = Some []"
| "drop_underscores prev (c # cs) =
     (if c = CHR ''_'' then
        (case cs of
           [] \<Rightarrow> None
         | d # _ \<Rightarrow> if prev \<and> is_digit d then drop_underscores False cs else None)
      else map_option ((#) c) (drop_underscores (is_digit c) cs))"

definition digits_val :: "string \<Rightarrow> nat" where
  "digits_val ds = foldl (\<lambda>acc c. 10 * acc + (of_char c - 48)) 0 ds"

text \<open>The exponent part after the mantissa: empty, or \<^verbatim>\<open>e\<close>, an optional sign and digits.\<close>

definition parse_exponent :: "string \<Rightarrow> int option" where
  "parse_exponent s =
     (case s of
        [] \<Rightarrow> Some 0
      | c # t \<Rightarrow>
          if c = CHR ''e'' \<or> c = CHR ''E'' then
            (let (neg, ds) =
                   (case t of
                      [] \<Rightarrow> (False, [])
                    | x # u \<Rightarrow>
                        if x = CHR ''-'' then (True, u)
                        else if x = CHR ''+'' then (False, u)
                        else (False, t))
             in if ds \<noteq> [] \<and> list_all is_digit ds
                then Some (if neg then - int (digits_val ds) else int (digits_val ds))
                else None)
          else None)"

definition pow10 :: "int \<Rightarrow> rat" where
  "pow10 e = (if 0 \<le> e then 10 ^ nat e else 1 / 10 ^ nat (- e))"

definition parse_number :: "string \<Rightarrow> rat option" where
  "parse_number s =
     (let ip = takeWhile is_digit s;
          r1 = dropWhile is_digit s;
          (fp, r2) =
            (case r1 of
               [] \<Rightarrow> ([], [])
             | c # t \<Rightarrow>
                 if c = CHR ''.'' then (takeWhile is_digit t, dropWhile is_digit t)
                 else ([], r1))
      in if ip = [] \<and> fp = [] then None
         else
           (case parse_exponent r2 of
              None \<Rightarrow> None
            | Some e \<Rightarrow>
                Some (of_nat (digits_val (ip @ fp)) * pow10 (e - int (length fp)))))"

definition parse_abs :: "string \<Rightarrow> pyfloat option" where
  "parse_abs s =
     (if lower s = ''inf'' \<or> lower s = ''infinity'' then Some PosInf
      else if lower s = ''nan'' then Some NaN
      else map_option Finite (parse_number s))"

definition negate :: "pyfloat \<Rightarrow> pyfloat" where
  "negate f =
     (case f of NaN \<Rightarrow> NaN | PosInf \<Rightarrow> NegInf | NegInf \<Rightarrow> PosInf | Finite q \<Rightarrow> Finite (- q))"

definition float_of_str :: "string \<Rightarrow> pyfloat option" where
  "float_of_str s =
     (case drop_underscores False (strip s) of
        None \<Rightarrow> None
      | Some t \<Rightarrow>
          (case t of
             [] \<Rightarrow> None
           | c # u \<Rightarrow>
               if c = CHR ''-'' then map_option negate (parse_abs u)
               else if c = CHR ''+'' then parse_abs u
               else parse_abs t))"

text \<open>
  \<^verbatim>\<open>float(v)\<close>: \<open>None\<close> is \<^verbatim>\<open>ValueError\<close> or \<^verbatim>\<open>TypeError\<close>, the two exceptions the
  filter catches. A boolean is an integer in Python.
\<close>

fun py_float :: "pyval \<Rightarrow> pyfloat option" where
  "py_float VNone = None"
| "py_float (VBool b) = Some (Finite (if b then 1 else 0))"
| "py_float (VInt i) = Some (Finite (of_int (sint i)))"
| "py_float (VFloat f) = Some f"
| "py_float (VStr s) = float_of_str s"
| "py_float (VObjectId _) = None"

section \<open>The filter of one vessel group (full\_filter.py)\<close>

definition required_fields :: "string list" where
  "required_fields = [''MMSI'', ''Latitude'', ''Longitude'', ''Navigational status'']"

definition numeric_fields :: "string list" where
  "numeric_fields = [''ROT'', ''SOG'', ''COG'', ''Heading'']"

text \<open>One conjunct of \<^verbatim>\<open>has_required\<close>: the generator's body for one field.\<close>

definition field_ok :: "doc \<Rightarrow> string \<Rightarrow> bool" where
  "field_ok d field =
     (case map_of d field of
        None \<Rightarrow> False
      | Some v \<Rightarrow> v \<noteq> VNone \<and> \<not> str_lower_is_nan v \<and> v \<noteq> VStr [] \<and> \<not> pd_isna v)"

definition has_required :: "doc \<Rightarrow> bool" where
  "has_required d = list_all (field_ok d) required_fields"

text \<open>The body of the loop over \<^verbatim>\<open>numeric_fields\<close>, for one field.\<close>

definition coerce_field :: "string \<Rightarrow> doc \<Rightarrow> doc" where
  "coerce_field field d =
     (case map_of d field of
        None \<Rightarrow> d
      | Some v \<Rightarrow>
          if v = VNone then d
          else
            (case py_float v of
               Some val \<Rightarrow>
                 if \<not> pd_isna (VFloat val) then AList.update field (VFloat val) d
                 else AList.update field VNone d
             | None \<Rightarrow> AList.update field VNone d))"

definition coerce_numeric :: "doc \<Rightarrow> doc" where
  "coerce_numeric d = fold coerce_field numeric_fields d"

text \<open>
  The loop \<^verbatim>\<open>for doc in docs\<close> with its accumulator \<^verbatim>\<open>filtered\<close>: the identifier is
  deleted, a document that fails the required-field check is skipped, the others are
  coerced and appended.
\<close>

fun filter_docs :: "doc list \<Rightarrow> doc list \<Rightarrow> doc list" where
  "filter_docs [] filtered = filtered"
| "filter_docs (doc # docs) filtered =
     (let doc1 = (if map_of doc ''_id'' \<noteq> None then AList.delete ''_id'' doc else doc)
      in if \<not> has_required doc1 then filter_docs docs filtered
         else filter_docs docs (filtered @ [coerce_numeric doc1]))"

section \<open>The store, as one worker sees it\<close>

text \<open>
  The document store is an external collaborator that may fail at any call. A fault
  schedule says, for the n-th call a worker makes, whether it returns or raises; a bulk
  insert is unordered, so a call that raises may still have accepted some of its
  documents: the list of booleans says which. The world of a worker is the number of calls made so
  far, the documents its collection has accepted, and a trace of what the worker did:
  the store calls, the sleeps, and two markers of control flow (the start of the try
  body of retry iteration \<open>k\<close>, and the start of the last-resort path).

  Logging and printing are left out of the worker functions: no property below is about
  them.
\<close>

datatype outcome = Ok | Raise "bool list"

type_synonym faults = "nat \<Rightarrow> outcome"

datatype event =
    Connect
  | Find pyval
  | InsertMany nat
  | InsertOne
  | Query
  | Close
  | Sleep nat
  | Attempt nat
  | Fallback

record world =
  clock :: nat
  target :: "doc list"
  trace :: "event list"

definition mark :: "event \<Rightarrow> world \<Rightarrow> world" where
  "mark e w = w\<lparr>trace := trace w @ [e]\<rparr>"

text \<open>\<^verbatim>\<open>time.sleep(d)\<close>.\<close>

definition sleep :: "nat \<Rightarrow> world \<Rightarrow> world" where
  "sleep d w = mark (Sleep d) w"

text \<open>One call to the store: it is recorded, and the schedule decides how it ends.\<close>

definition call :: "faults \<Rightarrow> event \<Rightarrow> world \<Rightarrow> outcome \<times> world" where
  "call F e w = (F (clock w), w\<lparr>clock := Suc (clock w), trace := trace w @ [e]\<rparr>)"

definition accepted :: "bool list \<Rightarrow> doc list \<Rightarrow> doc list" where
  "accepted got docs = map fst (filter snd (zip docs got))"

text \<open>
  The calls return \<open>True\<close> (or \<open>Some\<close> result) when they return, \<open>False\<close> (or \<open>None\<close>) when
  they raise.
\<close>

definition connect :: "faults \<Rightarrow> world \<Rightarrow> bool \<times> world" where
  "connect F w = (case call F Connect w of (Ok, w') \<Rightarrow> (True, w') | (Raise _, w') \<Rightarrow> (False, w'))"

definition close :: "faults \<Rightarrow> world \<Rightarrow> bool \<times> world" where
  "close F w = (case call F Close w of (Ok, w') \<Rightarrow> (True, w') | (Raise _, w') \<Rightarrow> (False, w'))"

definition query :: "faults \<Rightarrow> world \<Rightarrow> bool \<times> world" where
  "query F w = (case call F Query w of (Ok, w') \<Rightarrow> (True, w') | (Raise _, w') \<Rightarrow> (False, w'))"

text \<open>
  \<^verbatim>\<open>find({"MMSI": mmsi})\<close> on the source collection. The source collection is given by
  what it answers for each vessel key.
\<close>

definition find_mmsi :: "faults \<Rightarrow> (pyval \<Rightarrow> doc list) \<Rightarrow> pyval \<Rightarrow> world \<Rightarrow> doc list option \<times> world" where
  "find_mmsi F src mmsi w =
     (case call F (Find mmsi) w of (Ok, w') \<Rightarrow> (Some (src mmsi), w') | (Raise _, w') \<Rightarrow> (None, w'))"

definition insert_many :: "faults \<Rightarrow> doc list \<Rightarrow> world \<Rightarrow> bool \<times> world" where
  "insert_many F docs w =
     (case call F (InsertMany (length docs)) w of
        (Ok, w') \<Rightarrow> (True, w'\<lparr>target := target w' @ docs\<rparr>)
      | (Raise got, w') \<Rightarrow> (False, w'\<lparr>target := target w' @ accepted got docs\<rparr>))"

definition insert_one :: "faults \<Rightarrow> doc \<Rightarrow> world \<Rightarrow> bool \<times> world" where
  "insert_one F d w =
     (case call F InsertOne w of
        (Ok, w') \<Rightarrow> (True, w'\<lparr>target := target w' @ [d]\<rparr>)
      | (Raise got, w') \<Rightarrow> (False, w'\<lparr>target := target w' @ accepted got [d]\<rparr>))"

definition MAX_RETRIES :: nat where
  "MAX_RETRIES = 3"

definition RETRY_DELAY :: nat where
  "RETRY_DELAY = 5"

text \<open>\<^verbatim>\<open>range(0, n, k)\<close> for a positive step.\<close>

definition range_step :: "nat \<Rightarrow> nat \<Rightarrow> nat list" where
  "range_step n k = map (\<lambda>j. j * k) [0..<(n + k - 1) div k]"

section \<open>process\_vessel\_batch (full\_filter.py)\<close>

type_synonym counters = "int \<times> int \<times> int \<times> int"

definition batch_size_filter :: nat where
  "batch_size_filter = 500"

text \<open>
  The loop \<^verbatim>\<open>for i in range(0, len(filtered), batch_size)\<close>: each slice that is not empty
  is inserted; an insert that raises ends the loop with the exception.
\<close>

fun insert_loop :: "faults \<Rightarrow> doc list \<Rightarrow> nat list \<Rightarrow> world \<Rightarrow> bool \<times> world" where
  "insert_loop F filtered [] w = (True, w)"
| "insert_loop F filtered (i # rest) w =
     (let batch = take batch_size_filter (drop i filtered)
      in if batch \<noteq> [] then
           (case insert_many F batch w of
              (True, w') \<Rightarrow> insert_loop F filtered rest w'
            | (False, w') \<Rightarrow> (False, w'))
         else insert_loop F filtered rest w)"

text \<open>
  The body of \<^verbatim>\<open>for mmsi in mmsi_batch\<close>, on the four counters
  (\<^verbatim>\<open>vessels_processed\<close>, \<^verbatim>\<open>vessels_filtered\<close>, \<^verbatim>\<open>total_docs\<close>, \<^verbatim>\<open>filtered_docs\<close>).
\<close>

definition vessel_step ::
  "faults \<Rightarrow> (pyval \<Rightarrow> doc list) \<Rightarrow> pyval \<Rightarrow> counters \<Rightarrow> world \<Rightarrow> counters option \<times> world" where
  "vessel_step F src mmsi cnt w =
     (case cnt of (vessels_processed, vessels_filtered, total_docs, filtered_docs) \<Rightarrow>
      (case find_mmsi F src mmsi w of
         (None, w1) \<Rightarrow> (None, w1)
       | (Some docs, w1) \<Rightarrow>
           (let total_docs' = total_docs + int (length docs);
                vessels_processed' = vessels_processed + 1
            in if length docs < 100 then
                 (Some (vessels_processed', vessels_filtered, total_docs', filtered_docs), w1)
               else
                 (let filtered = filter_docs docs []
                  in if filtered \<noteq> [] then
                       (case insert_loop F filtered (range_step (length filtered) batch_size_filter) w1 of
                          (False, w2) \<Rightarrow> (None, w2)
                        | (True, w2) \<Rightarrow>
                            (Some (vessels_processed', vessels_filtered + 1, total_docs',
                                   filtered_docs + int (length filtered)), w2))
                     else
                       (Some (vessels_processed', vessels_filtered, total_docs', filtered_docs),
                        w1)))))"

fun vessel_loop ::
  "faults \<Rightarrow> (pyval \<Rightarrow> doc list) \<Rightarrow> pyval list \<Rightarrow> counters \<Rightarrow> world \<Rightarrow> counters option \<times> world" where
  "vessel_loop F src [] cnt w = (Some cnt, w)"
| "vessel_loop F src (mmsi # rest) cnt w =
     (case vessel_step F src mmsi cnt w of
        (None, w') \<Rightarrow> (None, w')
      | (Some cnt', w') \<Rightarrow> vessel_loop F src rest cnt' w')"

text \<open>The try body of one retry iteration; \<open>None\<close> is an exception reaching the handler.\<close>

definition try_vessel_batch ::
  "faults \<Rightarrow> (pyval \<Rightarrow> doc list) \<Rightarrow> pyval list \<Rightarrow> world \<Rightarrow> counters option \<times> world" where
  "try_vessel_batch F src mmsi_batch w =
     (case connect F w of
        (False, w1) \<Rightarrow> (None, w1)
      | (True, w1) \<Rightarrow>
          (case vessel_loop F src mmsi_batch (0, 0, 0, 0) w1 of
             (None, w2) \<Rightarrow> (None, w2)
           | (Some cnt, w2) \<Rightarrow>
               (case close F w2 of
                  (False, w3) \<Rightarrow> (None, w3)
                | (True, w3) \<Rightarrow> (Some cnt, w3))))"

text \<open>
  The loop \<^verbatim>\<open>for attempt in range(MAX_RETRIES)\<close>, over the list of the remaining values
  of \<^verbatim>\<open>attempt\<close>. A loop that ends without a return makes the function return \<^verbatim>\<open>None\<close>:
  the result \<open>None\<close> here.
\<close>

fun vessel_batch_loop ::
  "faults \<Rightarrow> (pyval \<Rightarrow> doc list) \<Rightarrow> pyval list \<Rightarrow> nat \<Rightarrow> nat list \<Rightarrow> world
   \<Rightarrow> counters option \<times> world" where
  "vessel_batch_loop F src mmsi_batch M [] w = (None, w)"
| "vessel_batch_loop F src mmsi_batch M (attempt # rest) w =
     (case try_vessel_batch F src mmsi_batch (mark (Attempt attempt) w) of
        (Some cnt, w1) \<Rightarrow> (Some cnt, w1)
      | (None, w1) \<Rightarrow>
          if int attempt < int M - 1 then vessel_batch_loop F src mmsi_batch M rest (sleep RETRY_DELAY w1)
          else (Some (0, 0, 0, 0), w1))"

definition process_vessel_batch_retries ::
  "nat \<Rightarrow> faults \<Rightarrow> (pyval \<Rightarrow> doc list) \<Rightarrow> pyval list \<Rightarrow> world \<Rightarrow> counters option \<times> world" where
  "process_vessel_batch_retries M F src mmsi_batch w =
     vessel_batch_loop F src mmsi_batch M [0..<M] w"

definition process_vessel_batch ::
  "faults \<Rightarrow> (pyval \<Rightarrow> doc list) \<Rightarrow> pyval list \<Rightarrow> world \<Rightarrow> counters option \<times> world" where
  "process_vessel_batch = process_vessel_batch_retries MAX_RETRIES"

section \<open>process\_chunk (parallel\_insert.py)\<close>

text \<open>The try body: connect, one unordered bulk insert unless the chunk is empty, close.\<close>

definition try_chunk :: "faults \<Rightarrow> doc list \<Rightarrow> world \<Rightarrow> int option \<times> world" where
  "try_chunk F records w =
     (case connect F w of
        (False, w1) \<Rightarrow> (None, w1)
      | (True, w1) \<Rightarrow>
          (case (if records \<noteq> [] then insert_many F records w1 else (True, w1)) of
             (False, w2) \<Rightarrow> (None, w2)
           | (True, w2) \<Rightarrow>
               (case close F w2 of
                  (False, w3) \<Rightarrow> (None, w3)
                | (True, w3) \<Rightarrow> (Some (int (length records)), w3))))"

text \<open>The loop of the last resort: a record whose insert raises is skipped.\<close>

fun insert_each :: "faults \<Rightarrow> doc list \<Rightarrow> int \<Rightarrow> world \<Rightarrow> int \<times> world" where
  "insert_each F [] successful w = (successful, w)"
| "insert_each F (record # rest) successful w =
     (case insert_one F record w of
        (True, w') \<Rightarrow> insert_each F rest (successful + 1) w'
      | (False, w') \<Rightarrow> insert_each F rest successful w')"

definition fallback :: "faults \<Rightarrow> doc list \<Rightarrow> world \<Rightarrow> int \<times> world" where
  "fallback F records w =
     (case connect F (mark Fallback w) of
        (False, w1) \<Rightarrow> (0, w1)
      | (True, w1) \<Rightarrow>
          (case insert_each F records 0 w1 of
             (successful, w2) \<Rightarrow>
               (case close F w2 of
                  (False, w3) \<Rightarrow> (0, w3)
                | (True, w3) \<Rightarrow> (successful, w3))))"

fun chunk_loop :: "faults \<Rightarrow> doc list \<Rightarrow> nat \<Rightarrow> nat list \<Rightarrow> world \<Rightarrow> int option \<times> world" where
  "chunk_loop F records M [] w = (None, w)"
| "chunk_loop F records M (attempt # rest) w =
     (case try_chunk F records (mark (Attempt attempt) w) of
        (Some n, w1) \<Rightarrow> (Some n, w1)
      | (None, w1) \<Rightarrow>
          if int attempt < int M - 1 then chunk_loop F records M rest (sleep RETRY_DELAY w1)
          else (case fallback F records w1 of (n, w2) \<Rightarrow> (Some n, w2)))"

definition process_chunk_retries :: "nat \<Rightarrow> faults \<Rightarrow> doc list \<Rightarrow> world \<Rightarrow> int option \<times> world" where
  "process_chunk_retries M F records w = chunk_loop F records M [0..<M] w"

definition process_chunk :: "faults \<Rightarrow> doc list \<Rightarrow> world \<Rightarrow> int option \<times> world" where
  "process_chunk = process_chunk_retries MAX_RETRIES"

section \<open>The retry loop of the query demo (fault\_tolerance\_demo.py)\<close>

text \<open>
  The loop \<^verbatim>\<open>for retry in range(MAX_RETRIES)\<close> that runs after a query has failed:
  reconnect and query again; leave the loop when that returns, otherwise sleep
  \<^verbatim>\<open>RETRY_DELAY * (retry + 1)\<close>.
\<close>

definition try_query :: "faults \<Rightarrow> world \<Rightarrow> bool \<times> world" where
  "try_query F w =
     (case connect F w of
        (False, w1) \<Rightarrow> (False, w1)
      | (True, w1) \<Rightarrow> query F w1)"

fun query_retry_loop :: "faults \<Rightarrow> nat list \<Rightarrow> world \<Rightarrow> world" where
  "query_retry_loop F [] w = w"
| "query_retry_loop F (retry # rest) w =
     (case try_query F (mark (Attempt retry) w) of
        (True, w1) \<Rightarrow> w1
      | (False, w1) \<Rightarrow> query_retry_loop F rest (sleep (RETRY_DELAY * (retry + 1)) w1))"

definition query_retries :: "nat \<Rightarrow> faults \<Rightarrow> world \<Rightarrow> world" where
  "query_retries M F w = query_retry_loop F [0..<M] w"

subsection \<open>Reading a trace\<close>

fun is_attempt :: "event \<Rightarrow> bool" where
  "is_attempt (Attempt _) = True"
| "is_attempt _ = False"

fun is_sleep :: "event \<Rightarrow> bool" where
  "is_sleep (Sleep _) = True"
| "is_sleep _ = False"

fun delay_of :: "event \<Rightarrow> nat" where
  "delay_of (Sleep d) = d"
| "delay_of _ = 0"

text \<open>The delays slept, in order.\<close>

definition delays :: "event list \<Rightarrow> nat list" where
  "delays tr = map delay_of (filter is_sleep tr)"

definition attempts :: "event list \<Rightarrow> nat" where
  "attempts tr = length (filter is_attempt tr)"

definition fallbacks :: "event list \<Rightarrow> nat" where
  "fallbacks tr = length (filter (\<lambda>e. e = Fallback) tr)"

definition single_inserts :: "event list \<Rightarrow> nat" where
  "single_inserts tr = length (filter (\<lambda>e. e = InsertOne) tr)"

section \<open>main (parallel\_insert.py)\<close>

text \<open>
  \<^verbatim>\<open>CHUNK_SIZE\<close> and \<^verbatim>\<open>TARGET_ROWS\<close> are settings of the script; the functions below take them
  as the arguments \<open>C\<close> and \<open>T\<close>. The number of chunks read per batch is the local
  \<^verbatim>\<open>batch_size = 10\<close> of \<^verbatim>\<open>main\<close>.
\<close>

definition CHUNK_SIZE :: nat where
  "CHUNK_SIZE = 5000"

definition TARGET_ROWS :: nat where
  "TARGET_ROWS = 5000000"

definition batch_size_main :: nat where
  "batch_size_main = 10"

text \<open>
  \<^verbatim>\<open>pd.read_csv(path, chunksize=C)\<close> over the data rows of the file: consecutive frames
  of \<open>C\<close> rows, the last one possibly shorter.
\<close>

definition csv_chunks :: "nat \<Rightarrow> 'a list \<Rightarrow> 'a list list" where
  "csv_chunks C rows = map (\<lambda>i. take C (drop (i * C) rows)) [0..<(length rows + C - 1) div C]"

text \<open>\<^verbatim>\<open>DataFrame.head(n)\<close>: the first \<open>n\<close> rows, or all but the last \<open>-n\<close> for a negative \<open>n\<close>.\<close>

definition df_head :: "int \<Rightarrow> 'a list \<Rightarrow> 'a list" where
  "df_head n xs = (if 0 \<le> n then take (nat n) xs else take (length xs - nat (- n)) xs)"

text \<open>
  The loop \<^verbatim>\<open>for i, chunk_df in enumerate(reader)\<close> of one batch, with its accumulator
  \<^verbatim>\<open>chunks\<close>. \<^verbatim>\<open>total_inserted\<close> is read here and not changed: it is updated only when
  the results of the pool come back.
\<close>

fun read_batch ::
  "nat \<Rightarrow> nat \<Rightarrow> nat \<Rightarrow> nat \<Rightarrow> int \<Rightarrow> (nat \<times> 'a list) list \<Rightarrow> 'a list list \<Rightarrow> 'a list list" where
  "read_batch C T batch_start batch_end total_inserted [] chunks = chunks"
| "read_batch C T batch_start batch_end total_inserted ((i, chunk_df) # rest) chunks =
     (if i < batch_start * C div C then
        read_batch C T batch_start batch_end total_inserted rest chunks
      else if i \<ge> batch_end * C div C then chunks
      else
        (let chunk_df' =
               (if total_inserted + int (length chunk_df) > int T
                then df_head (int T - total_inserted) chunk_df
                else chunk_df)
         in read_batch C T batch_start batch_end total_inserted rest (chunks @ [chunk_df'])))"

text \<open>
  The loop \<^verbatim>\<open>for batch_start in range(0, total_chunks, batch_size)\<close>. The pool returns, for
  each chunk, the number of rows \<^verbatim>\<open>process_chunk\<close> inserted: the function \<open>res\<close>. The loop
  gives the batches it handed to the pool, in order, and the final \<^verbatim>\<open>total_inserted\<close>.
\<close>

fun batch_loop ::
  "nat \<Rightarrow> nat \<Rightarrow> ('a list \<Rightarrow> int) \<Rightarrow> 'a list \<Rightarrow> nat list \<Rightarrow> int \<Rightarrow> 'a list list list \<times> int" where
  "batch_loop C T res rows [] total_inserted = ([], total_inserted)"
| "batch_loop C T res rows (batch_start # rest) total_inserted =
     (let total_chunks = (T + C - 1) div C;
          batch_end = min (batch_start + batch_size_main) total_chunks;
          chunks = read_batch C T batch_start batch_end total_inserted
                     (enumerate 0 (csv_chunks C rows)) [];
          total_inserted' = total_inserted + sum_list (map res chunks)
      in if total_inserted' \<ge> int T then ([chunks], total_inserted')
         else
           (case batch_loop C T res rows rest total_inserted' of
              (later, final) \<Rightarrow> (chunks # later, final)))"

definition ingest :: "nat \<Rightarrow> nat \<Rightarrow> ('a list \<Rightarrow> int) \<Rightarrow> 'a list \<Rightarrow> 'a list list list \<times> int" where
  "ingest C T res rows = batch_loop C T res rows (range_step ((T + C - 1) div C) batch_size_main) 0"

text \<open>The chunks fed to the workers, in the order they are read.\<close>

definition emitted :: "nat \<Rightarrow> nat \<Rightarrow> ('a list \<Rightarrow> int) \<Rightarrow> 'a list \<Rightarrow> 'a list list" where
  "emitted C T res rows = concat (fst (ingest C T res rows))"

text \<open>
  What \<^verbatim>\<open>main\<close> finds when it runs: whether the file exists, its data rows (\<open>None\<close> when
  opening it raises), whether \<^verbatim>\<open>pd.read_csv\<close> accepts the file, whether the store answers
  the ping and the index creation, and what the workers return for each chunk. \<^verbatim>\<open>main\<close>
  gives the events of the run and the exit status of the script. Every path of \<^verbatim>\<open>main\<close>
  returns to the module level, where the script ends: the status is 0 on each of them.

  After the store has answered, a chunk size of 0 makes the computation of
  \<^verbatim>\<open>total_chunks\<close> raise \<^verbatim>\<open>ZeroDivisionError\<close>, and a file that \<^verbatim>\<open>pd.read_csv\<close> refuses
  makes the first batch raise; both end in the handler of \<^verbatim>\<open>main\<close>.
\<close>

datatype store_state = Down | PingOnly | Up

record 'a main_env =
  csv_exists :: bool
  csv_rows :: "'a list option"
  csv_parses :: bool
  store :: store_state
  chunk_result :: "'a list \<Rightarrow> int"

datatype message = CsvNotFound | ConnectionError | UnhandledError | Summary int

datatype 'a main_event =
    Say message
  | OpenCsv
  | StoreConnect
  | Dispatch "'a list"

fun is_store_event :: "'a main_event \<Rightarrow> bool" where
  "is_store_event StoreConnect = True"
| "is_store_event (Dispatch _) = True"
| "is_store_event _ = False"

fun is_say :: "'a main_event \<Rightarrow> bool" where
  "is_say (Say _) = True"
| "is_say _ = False"

definition batch_events :: "'a list list \<Rightarrow> 'a main_event list" where
  "batch_events chunks = OpenCsv # map Dispatch chunks"

definition main :: "nat \<Rightarrow> nat \<Rightarrow> 'a main_env \<Rightarrow> 'a main_event list \<times> nat" where
  "main C T env =
     (if \<not> csv_exists env then ([Say CsvNotFound], 0)
      else
        (case csv_rows env of
           None \<Rightarrow> ([OpenCsv, Say UnhandledError], 0)
         | Some rows \<Rightarrow>
             (case store env of
                Down \<Rightarrow> ([OpenCsv, StoreConnect, Say ConnectionError], 0)
              | PingOnly \<Rightarrow> ([OpenCsv, StoreConnect, StoreConnect, Say ConnectionError], 0)
              | Up \<Rightarrow>
                  if C = 0 then ([OpenCsv, StoreConnect, StoreConnect, Say UnhandledError], 0)
                  else if \<not> csv_parses env
                          \<and> range_step ((T + C - 1) div C) batch_size_main \<noteq> []
                  then ([OpenCsv, StoreConnect, StoreConnect, OpenCsv, Say UnhandledError], 0)
                  else
                    (case ingest C T (chunk_result env) rows of
                       (batches, total_inserted) \<Rightarrow>
                         ([OpenCsv, StoreConnect, StoreConnect]
                          @ concat (map batch_events batches)
                          @ [Say (Summary total_inserted)], 0)))))"

section \<open>Observations and concrete inputs\<close>

text \<open>What a worker did, and what its collection accepted, between two worlds.\<close>

definition events_since :: "world \<Rightarrow> world \<Rightarrow> event list" where
  "events_since w w' = drop (length (trace w)) (trace w')"

definition written_since :: "world \<Rightarrow> world \<Rightarrow> doc list" where
  "written_since w w' = drop (length (target w)) (target w')"

fun is_call :: "event \<Rightarrow> bool" where
  "is_call (Sleep _) = False"
| "is_call (Attempt _) = False"
| "is_call Fallback = False"
| "is_call _ = True"

fun is_bulk_insert :: "event \<Rightarrow> bool" where
  "is_bulk_insert (InsertMany _) = True"
| "is_bulk_insert _ = False"

definition bulk_inserts :: "event list \<Rightarrow> nat" where
  "bulk_inserts tr = length (filter is_bulk_insert tr)"

text \<open>A store that never fails, one that always fails, and a fresh world.\<close>

definition all_ok :: faults where
  "all_ok n = Ok"

definition always_fail :: faults where
  "always_fail n = Raise []"

definition w0 :: world where
  "w0 = \<lparr>clock = 0, target = [], trace = []\<rparr>"

text \<open>Fifteen data rows, and workers that insert every row they are given.\<close>

definition rows15 :: "nat list" where
  "rows15 = [1, 2, 3, 4, 5, 6, 7, 8, 9, 10, 11, 12, 13, 14, 15]"

definition count_all :: "nat list \<Rightarrow> int" where
  "count_all chunk = int (length chunk)"

definition env_missing :: "nat main_env" where
  "env_missing =
     \<lparr>csv_exists = False, csv_rows = None, csv_parses = False, store = Up,
      chunk_result = count_all\<rparr>"

section \<open>The rules, as the claims state them\<close>

text \<open>
  The filtering rule for one vessel group: a group of fewer than 100 records gives
  nothing; of a larger group, the records that pass the required-field check are kept,
  each without its identifier and with its numeric fields coerced.
\<close>

definition retained :: "doc list \<Rightarrow> doc list" where
  "retained docs =
     (if length docs < 100 then []
      else map (\<lambda>d. coerce_numeric (AList.delete ''_id'' d)) (filter has_required docs))"

text \<open>
  The coercion rule for one value of a numeric field: the null value stays; a value that
  does not convert to a float, or converts to not-a-number, becomes the null value; any
  other value becomes its float.
\<close>

definition coerced :: "pyval \<Rightarrow> pyval" where
  "coerced v =
     (if v = VNone then VNone
      else (case py_float v of
              None \<Rightarrow> VNone
            | Some x \<Rightarrow> if x = NaN then VNone else VFloat x))"


text \<open>The counters one successful attempt returns for a batch of vessel keys.\<close>

definition batch_counters :: "(pyval \<Rightarrow> doc list) \<Rightarrow> pyval list \<Rightarrow> counters" where
  "batch_counters src ms =
     (int (length ms),
      int (length (filter (\<lambda>m. retained (src m) \<noteq> []) ms)),
      (\<Sum>m\<leftarrow>ms. int (length (src m))),
      (\<Sum>m\<leftarrow>ms. int (length (retained (src m)))))"


text \<open>The counters after a batch, from the counters before it.\<close>

definition add_counters :: "counters \<Rightarrow> counters \<Rightarrow> counters" where
  "add_counters c d =
     (case c of (a1, a2, a3, a4) \<Rightarrow> case d of (b1, b2, b3, b4) \<Rightarrow> (a1 + b1, a2 + b2, a3 + b3, a4 + b4))"

text \<open>
  The number of single inserts that return, among \<open>n\<close> consecutive calls starting at
  call \<open>c\<close> of the schedule.
\<close>

definition inserted_singly :: "faults \<Rightarrow> nat \<Rightarrow> nat \<Rightarrow> int" where
  "inserted_singly F c n = int (length (filter (\<lambda>i. F (c + i) = Ok) [0..<n]))"



text \<open>
  The number of failed attempts of a retry loop: how many of at most \<open>n\<close> consecutive
  runs of the try body fail before one succeeds, each run starting in the world the run
  before it left. The result of a run is judged by \<open>ok\<close>: a try body that gives an
  optional result fails when it gives none (\<open>returned\<close>).
\<close>

definition returned :: "'a option \<Rightarrow> bool" where
  "returned r = (r \<noteq> None)"

fun failures_from :: "('r \<Rightarrow> bool) \<Rightarrow> (world \<Rightarrow> 'r \<times> world) \<Rightarrow> nat \<Rightarrow> world \<Rightarrow> nat" where
  "failures_from ok body 0 w = 0"
| "failures_from ok body (Suc n) w =
     (case body w of (r, w1) \<Rightarrow> if ok r then 0 else Suc (failures_from ok body n w1))"

section \<open>More concrete inputs\<close>

text \<open>A store that refuses its first two calls.\<close>

definition fails_twice :: faults where
  "fails_twice n = (if n < 2 then Raise [] else Ok)"


text \<open>A source collection with no documents.\<close>

definition no_docs :: "pyval \<Rightarrow> doc list" where
  "no_docs mmsi = []"




text \<open>
  A record that passes the required-field check, one without a latitude, a vessel group
  of 150 records of which 20 have no latitude, a group of 100 records none of which
  passes, and a record whose rate of turn is the text \<^verbatim>\<open>nan\<close>.
\<close>

definition good_doc :: doc where
  "good_doc =
     [(''_id'', VObjectId 1), (''MMSI'', VInt 219000001),
      (''Latitude'', VFloat (Finite (111 / 2))), (''Longitude'', VFloat (Finite (21 / 2))),
      (''Navigational status'', VStr ''Under way using engine''),
      (''ROT'', VStr ''12.5''), (''SOG'', VStr ''abc'')]"

definition no_lat_doc :: doc where
  "no_lat_doc =
     [(''_id'', VObjectId 2), (''MMSI'', VInt 219000001),
      (''Longitude'', VFloat (Finite (21 / 2))),
      (''Navigational status'', VStr ''Under way using engine''),
      (''ROT'', VStr ''12.5''), (''SOG'', VStr ''abc'')]"

definition group150 :: "pyval \<Rightarrow> doc list" where
  "group150 mmsi = replicate 130 good_doc @ replicate 20 no_lat_doc"

definition group100_bad :: "pyval \<Rightarrow> doc list" where
  "group100_bad mmsi = replicate 100 no_lat_doc"

definition nan_doc :: doc where
  "nan_doc =
     [(''MMSI'', VInt 219000001),
      (''Latitude'', VFloat (Finite (111 / 2))), (''Longitude'', VFloat (Finite (21 / 2))),
      (''Navigational status'', VStr ''Moored''),
      (''ROT'', VStr ''nan'')]"

section \<open>Store calls and traces\<close>

lemma call_eq:
  "call F e w = (r, w') \<Longrightarrow>
     r = F (clock w) \<and> trace w' = trace w @ [e] \<and> target w' = target w \<and> clock w' = Suc (clock w)"
  by (auto simp: call_def)

lemma connect_eq:
  "connect F w = (b, w') \<Longrightarrow>
     b = (F (clock w) = Ok) \<and> trace w' = trace w @ [Connect] \<and> target w' = target w
     \<and> clock w' = Suc (clock w)"
  by (auto simp: connect_def call_def split: outcome.splits)

lemma close_eq:
  "close F w = (b, w') \<Longrightarrow>
     b = (F (clock w) = Ok) \<and> trace w' = trace w @ [Close] \<and> target w' = target w
     \<and> clock w' = Suc (clock w)"
  by (auto simp: close_def call_def split: outcome.splits)

lemma query_eq:
  "query F w = (b, w') \<Longrightarrow>
     b = (F (clock w) = Ok) \<and> trace w' = trace w @ [Query] \<and> target w' = target w
     \<and> clock w' = Suc (clock w)"
  by (auto simp: query_def call_def split: outcome.splits)

lemma find_mmsi_eq:
  "find_mmsi F src mmsi w = (r, w') \<Longrightarrow>
     r = (if F (clock w) = Ok then Some (src mmsi) else None)
     \<and> trace w' = trace w @ [Find mmsi] \<and> target w' = target w \<and> clock w' = Suc (clock w)"
  by (auto simp: find_mmsi_def call_def split: outcome.splits)

lemma set_accepted: "set (accepted got docs) \<subseteq> set docs"
  by (auto simp: accepted_def dest: set_zip_leftD)

lemma insert_many_eq:
  "insert_many F docs w = (b, w') \<Longrightarrow>
     b = (F (clock w) = Ok) \<and> trace w' = trace w @ [InsertMany (length docs)]
     \<and> clock w' = Suc (clock w)
     \<and> (\<exists>ds. target w' = target w @ ds \<and> set ds \<subseteq> set docs \<and> (b \<longrightarrow> ds = docs))"
  using set_accepted by (auto simp: insert_many_def call_def split: outcome.splits)

lemma insert_one_eq:
  "insert_one F d w = (b, w') \<Longrightarrow>
     b = (F (clock w) = Ok) \<and> trace w' = trace w @ [InsertOne]
     \<and> clock w' = Suc (clock w)
     \<and> (\<exists>ds. target w' = target w @ ds \<and> set ds \<subseteq> {d} \<and> (b \<longrightarrow> ds = [d]))"
  using set_accepted [of _ "[d]"] by (auto simp: insert_one_def call_def split: outcome.splits)

lemma mark_simps [simp]:
  "trace (mark e w) = trace w @ [e]" "target (mark e w) = target w" "clock (mark e w) = clock w"
  by (simp_all add: mark_def)

lemma sleep_simps [simp]:
  "trace (sleep d w) = trace w @ [Sleep d]" "target (sleep d w) = target w"
  "clock (sleep d w) = clock w"
  by (simp_all add: sleep_def)

lemma events_since_append: "trace w' = trace w @ tr \<Longrightarrow> events_since w w' = tr"
  by (simp add: events_since_def)

lemma written_since_append: "target w' = target w @ ds \<Longrightarrow> written_since w w' = ds"
  by (simp add: written_since_def)

subsection \<open>Counting in traces\<close>

lemma attempts_simps [simp]:
  "attempts [] = 0" "attempts (e # tr) = (if is_attempt e then 1 else 0) + attempts tr"
  "attempts (tr @ tr') = attempts tr + attempts tr'"
  by (simp_all add: attempts_def)

lemma fallbacks_simps [simp]:
  "fallbacks [] = 0" "fallbacks (e # tr) = (if e = Fallback then 1 else 0) + fallbacks tr"
  "fallbacks (tr @ tr') = fallbacks tr + fallbacks tr'"
  by (simp_all add: fallbacks_def)

lemma single_inserts_simps [simp]:
  "single_inserts [] = 0"
  "single_inserts (e # tr) = (if e = InsertOne then 1 else 0) + single_inserts tr"
  "single_inserts (tr @ tr') = single_inserts tr + single_inserts tr'"
  by (simp_all add: single_inserts_def)

lemma bulk_inserts_simps [simp]:
  "bulk_inserts [] = 0"
  "bulk_inserts (e # tr) = (if is_bulk_insert e then 1 else 0) + bulk_inserts tr"
  "bulk_inserts (tr @ tr') = bulk_inserts tr + bulk_inserts tr'"
  by (simp_all add: bulk_inserts_def)

lemma delays_simps [simp]:
  "delays [] = []" "delays (e # tr) = (if is_sleep e then [delay_of e] else []) @ delays tr"
  "delays (tr @ tr') = delays tr @ delays tr'"
  by (simp_all add: delays_def)

lemma calls_quiet:
  "list_all is_call tr \<Longrightarrow> attempts tr = 0 \<and> fallbacks tr = 0 \<and> delays tr = []"
proof (induction tr)
  case Nil
  show ?case by simp
next
  case (Cons e tr)
  then show ?case by (cases e) simp_all
qed

lemma bulk_quiet:
  "list_all is_bulk_insert tr \<Longrightarrow> list_all is_call tr \<and> single_inserts tr = 0"
proof (induction tr)
  case Nil
  show ?case by simp
next
  case (Cons e tr)
  then show ?case by (cases e) simp_all
qed

lemma after_fallback:
  assumes "fallbacks pre = 0"
  shows "dropWhile (\<lambda>e. e \<noteq> Fallback) (pre @ post) = dropWhile (\<lambda>e. e \<noteq> Fallback) post"
proof -
  from assms have "filter (\<lambda>e. e = Fallback) pre = []" by (simp add: fallbacks_def)
  then have "\<And>x. x \<in> set pre \<Longrightarrow> x \<noteq> Fallback" by (simp add: filter_empty_conv)
  then show ?thesis by (simp add: dropWhile_append2)
qed

lemma attempts_dropWhile: "attempts (dropWhile P tr) \<le> attempts tr"
  by (induction tr) simp_all

lemma bulk_inserts_dropWhile: "bulk_inserts (dropWhile P tr) \<le> bulk_inserts tr"
  by (induction tr) simp_all

lemma early_attempts: "length (filter (\<lambda>a. int a < int M - 1) [0..<M]) = M - 1"
proof -
  have e: "(\<lambda>a. int a < int M - 1) = (\<lambda>a. a < M - 1)" by (rule ext) linarith
  have "length (filter (\<lambda>a. a < M - 1) [0..<k]) = min k (M - 1)" for k
    by (induction k) auto
  from this [of M] show ?thesis by (simp add: e)
qed

section \<open>The filter of one attempt\<close>

subsection \<open>The insert loop\<close>

lemma insert_loop_eq:
  "insert_loop F filtered idx w = (b, w') \<Longrightarrow>
     (\<exists>tr. trace w' = trace w @ tr \<and> list_all is_bulk_insert tr)
     \<and> (\<exists>ds. target w' = target w @ ds \<and> set ds \<subseteq> set filtered
           \<and> (b \<longrightarrow> ds = concat (map (\<lambda>i. take batch_size_filter (drop i filtered)) idx)))"
proof (induction idx arbitrary: w)
  case Nil
  then show ?case by simp
next
  case (Cons i rest)
  let ?batch = "take batch_size_filter (drop i filtered)"
  show ?case
  proof (cases "?batch = []")
    case True
    with Cons.prems have "insert_loop F filtered rest w = (b, w')" by simp
    from Cons.IH [OF this] show ?thesis
      by (simp add: True del: take_eq_Nil take_eq_Nil2)
  next
    case False
    obtain b1 w1 where im: "insert_many F ?batch w = (b1, w1)" by (cases "insert_many F ?batch w")
    note e1 = insert_many_eq [OF im]
    from e1 obtain ds1 where ds1: "target w1 = target w @ ds1" "set ds1 \<subseteq> set ?batch"
      "b1 \<longrightarrow> ds1 = ?batch" by blast
    have sub: "set ?batch \<subseteq> set filtered"
      by (meson set_take_subset set_drop_subset subset_trans)
    show ?thesis
    proof (cases b1)
      case True
      with Cons.prems False im have "insert_loop F filtered rest w1 = (b, w')" by simp
      from Cons.IH [OF this] obtain tr ds where
        "trace w' = trace w1 @ tr" "list_all is_bulk_insert tr"
        "target w' = target w1 @ ds" "set ds \<subseteq> set filtered"
        "b \<longrightarrow> ds = concat (map (\<lambda>i. take batch_size_filter (drop i filtered)) rest)"
        by blast
      with e1 ds1 sub True show ?thesis by auto
    next
      case b1f: False
      with Cons.prems False im have "b = False" "w' = w1" by simp_all
      with e1 ds1 sub show ?thesis by auto
    qed
  qed
qed

lemma concat_slices:
  "concat (map (\<lambda>i. take k (drop i xs)) (map (\<lambda>j. j * k) [0..<n])) = take (n * k) xs"
proof (induction n)
  case 0
  then show ?case by simp
next
  case (Suc n)
  have "take (n * k) xs @ take k (drop (n * k) xs) = take (n * k + k) xs"
    by (simp add: take_add)
  with Suc show ?case by (simp add: add.commute)
qed

lemma concat_range_step:
  assumes "0 < k"
  shows "concat (map (\<lambda>i. take k (drop i xs)) (range_step (length xs) k)) = xs"
proof -
  have "length xs \<le> ((length xs + k - 1) div k) * k"
  proof -
    have "(length xs + k - 1) mod k < k" using assms by simp
    moreover have "(length xs + k - 1) div k * k + (length xs + k - 1) mod k = length xs + k - 1"
      by simp
    ultimately show ?thesis by linarith
  qed
  then show ?thesis
    unfolding range_step_def concat_slices by simp
qed

subsection \<open>The documents kept\<close>

lemma has_required_delete_id: "has_required (AList.delete ''_id'' d) = has_required d"
  by (simp add: has_required_def required_fields_def field_ok_def)

lemma delete_id_if:
  "(if map_of doc ''_id'' \<noteq> None then AList.delete ''_id'' doc else doc) = AList.delete ''_id'' doc"
  by (simp add: map_of_eq_None_iff)

lemma filter_docs_Cons:
  "filter_docs (doc # docs) filtered =
     (if \<not> has_required (AList.delete ''_id'' doc) then filter_docs docs filtered
      else filter_docs docs (filtered @ [coerce_numeric (AList.delete ''_id'' doc)]))"
  by (simp only: filter_docs.simps delete_id_if Let_def)

lemma filter_docs_eq:
  "filter_docs docs filtered
     = filtered @ map coerce_numeric (filter has_required (map (AList.delete ''_id'') docs))"
proof (induction docs arbitrary: filtered)
  case Nil
  show ?case by simp
next
  case (Cons doc docs)
  show ?case unfolding filter_docs_Cons by (simp add: Cons.IH)
qed

lemma length_filter_docs: "length (filter_docs docs []) \<le> length docs"
  by (simp add: filter_docs_eq)

lemma retained_eq: "retained docs = (if length docs < 100 then [] else filter_docs docs [])"
  by (simp add: retained_def filter_docs_eq filter_map o_def has_required_delete_id)

lemma length_retained: "length (retained docs) \<le> length docs"
  by (simp add: retained_def)

lemma has_required_good_doc: "has_required good_doc"
  by code_simp

lemma has_required_no_lat_doc: "\<not> has_required no_lat_doc"
  by code_simp

subsection \<open>Coercion of the numeric fields\<close>

lemma map_of_coerce_field:
  "map_of (coerce_field f d) k = (if k = f then map_option coerced (map_of d f) else map_of d k)"
  by (cases "map_of d f")
    (auto simp: coerce_field_def coerced_def update_conv' split: option.splits)

lemma keys_coerce_field: "fst ` set (coerce_field f d) = fst ` set d"
proof (cases "map_of d f")
  case None
  then show ?thesis by (simp add: coerce_field_def)
next
  case (Some v)
  then have "f \<in> fst ` set d" by (metis map_of_eq_None_iff option.distinct(1))
  with Some show ?thesis
    by (auto simp: coerce_field_def dom_update split: option.splits)
qed

lemma map_of_coerce_numeric:
  "map_of (coerce_numeric d) k
     = (if k \<in> set numeric_fields then map_option coerced (map_of d k) else map_of d k)"
  by (simp add: coerce_numeric_def numeric_fields_def map_of_coerce_field)

lemma keys_coerce_numeric: "fst ` set (coerce_numeric d) = fst ` set d"
  by (simp add: coerce_numeric_def numeric_fields_def keys_coerce_field)

lemma has_required_update_numeric:
  "field \<in> set numeric_fields \<Longrightarrow> has_required (AList.update field v d) = has_required d"
  by (auto simp: has_required_def required_fields_def numeric_fields_def field_ok_def update_conv')

lemma coerced_examples:
  "coerced (VStr ''12.5'') = VFloat (Finite (25 / 2))" "coerced (VStr ''abc'') = VNone"
  by code_simp+

subsection \<open>One vessel, all vessels, one attempt\<close>

lemma vessel_step_eq:
  assumes "vessel_step F src mmsi (vp, vf, td, fd) w = (r, w')"
  shows "(\<exists>tr. trace w' = trace w @ Find mmsi # tr \<and> list_all is_bulk_insert tr
            \<and> (retained (src mmsi) = [] \<longrightarrow> tr = []))
         \<and> (\<exists>ds. target w' = target w @ ds \<and> set ds \<subseteq> set (retained (src mmsi))
               \<and> (r \<noteq> None \<longrightarrow> ds = retained (src mmsi)))
         \<and> (r = None \<or>
             r = Some (vp + 1, vf + (if retained (src mmsi) = [] then 0 else 1),
                       td + int (length (src mmsi)), fd + int (length (retained (src mmsi)))))"
proof -
  obtain r1 w1 where f: "find_mmsi F src mmsi w = (r1, w1)" by (cases "find_mmsi F src mmsi w")
  note e1 = find_mmsi_eq [OF f]
  show ?thesis
  proof (cases r1)
    case None
    with assms f have "r = None" "w' = w1" by (simp_all add: vessel_step_def)
    with e1 show ?thesis by simp
  next
    case (Some docs)
    with e1 have docs: "docs = src mmsi" by (simp split: if_splits)
    show ?thesis
    proof (cases "retained (src mmsi) = []")
      case True
      with assms f Some docs have "r = Some (vp + 1, vf, td + int (length (src mmsi)), fd)" "w' = w1"
        by (auto simp: vessel_step_def retained_eq Let_def split: if_splits)
      with e1 True show ?thesis by simp
    next
      case False
      then have big: "\<not> length (src mmsi) < 100" and ne: "filter_docs (src mmsi) [] \<noteq> []"
        and ret: "retained (src mmsi) = filter_docs (src mmsi) []"
        by (auto simp: retained_eq split: if_splits)
      let ?fl = "filter_docs (src mmsi) []"
      obtain b2 w2 where il: "insert_loop F ?fl (range_step (length ?fl) batch_size_filter) w1 = (b2, w2)"
        by (cases "insert_loop F ?fl (range_step (length ?fl) batch_size_filter) w1")
      from insert_loop_eq [OF il] obtain tr ds where
        tr: "trace w2 = trace w1 @ tr" "list_all is_bulk_insert tr" and
        ds: "target w2 = target w1 @ ds" "set ds \<subseteq> set ?fl"
          "b2 \<longrightarrow> ds = concat (map (\<lambda>i. take batch_size_filter (drop i ?fl))
                                  (range_step (length ?fl) batch_size_filter))"
        by blast
      have full: "b2 \<longrightarrow> ds = ?fl"
        using ds(3) concat_range_step [of batch_size_filter ?fl] by (simp add: batch_size_filter_def)
      from assms f Some docs big ne il have w': "w' = w2"
        and r: "r = (if b2 then Some (vp + 1, vf + 1, td + int (length (src mmsi)),
                                      fd + int (length ?fl)) else None)"
        by (auto simp: vessel_step_def Let_def split: if_splits bool.splits)
      from e1 tr ds full w' r False ret show ?thesis by auto
    qed
  qed
qed

lemma vessel_loop_eq:
  "vessel_loop F src ms cnt w = (r, w') \<Longrightarrow>
     (\<exists>tr. trace w' = trace w @ tr \<and> list_all is_call tr \<and> single_inserts tr = 0)
     \<and> (\<exists>ds. target w' = target w @ ds \<and> set ds \<subseteq> (\<Union>m\<in>set ms. set (retained (src m)))
           \<and> (r \<noteq> None \<longrightarrow> ds = concat (map (\<lambda>m. retained (src m)) ms)))
     \<and> (r = None \<or> r = Some (add_counters cnt (batch_counters src ms)))"
proof (induction ms arbitrary: cnt w)
  case Nil
  then show ?case by (cases cnt) (auto simp: add_counters_def batch_counters_def)
next
  case (Cons m ms)
  obtain vp vf td fd where cnt: "cnt = (vp, vf, td, fd)" by (cases cnt)
  obtain r1 w1 where vs: "vessel_step F src m (vp, vf, td, fd) w = (r1, w1)"
    by (cases "vessel_step F src m (vp, vf, td, fd) w")
  from vessel_step_eq [OF vs] obtain tr1 ds1 where
    tr1: "trace w1 = trace w @ Find m # tr1" "list_all is_bulk_insert tr1" and
    ds1: "target w1 = target w @ ds1" "set ds1 \<subseteq> set (retained (src m))"
      "r1 \<noteq> None \<longrightarrow> ds1 = retained (src m)" and
    r1: "r1 = None \<or> r1 = Some (vp + 1, vf + (if retained (src m) = [] then 0 else 1),
                       td + int (length (src m)), fd + int (length (retained (src m))))"
    by blast
  note q1 = bulk_quiet [OF tr1(2)]
  show ?case
  proof (cases r1)
    case None
    with Cons.prems cnt vs have "r = None" "w' = w1" by simp_all
    with tr1 ds1 q1 show ?thesis by auto
  next
    case (Some cnt1)
    with Cons.prems cnt vs have "vessel_loop F src ms cnt1 w1 = (r, w')" by simp
    from Cons.IH [OF this] obtain tr2 ds2 where
      tr2: "trace w' = trace w1 @ tr2" "list_all is_call tr2" "single_inserts tr2 = 0" and
      ds2: "target w' = target w1 @ ds2" "set ds2 \<subseteq> (\<Union>m\<in>set ms. set (retained (src m)))"
        "r \<noteq> None \<longrightarrow> ds2 = concat (map (\<lambda>m. retained (src m)) ms)" and
      r: "r = None \<or> r = Some (add_counters cnt1 (batch_counters src ms))"
      by blast
    have c: "add_counters cnt1 (batch_counters src ms)
               = add_counters cnt (batch_counters src (m # ms))"
      using r1 Some cnt by (auto simp: add_counters_def batch_counters_def)
    have t: "trace w' = trace w @ (Find m # tr1 @ tr2)" using tr1 tr2 by simp
    have t2: "list_all is_call (Find m # tr1 @ tr2)" "single_inserts (Find m # tr1 @ tr2) = 0"
      using q1 tr2 by simp_all
    have d: "target w' = target w @ (ds1 @ ds2)" using ds1 ds2 by simp
    have d2: "set (ds1 @ ds2) \<subseteq> (\<Union>m\<in>set (m # ms). set (retained (src m)))"
      using ds1 ds2 by auto
    have d3: "r \<noteq> None \<longrightarrow> ds1 @ ds2 = concat (map (\<lambda>m. retained (src m)) (m # ms))"
      using ds1 ds2 Some by simp
    from t t2 d d2 d3 r c show ?thesis by metis
  qed
qed

lemma try_vessel_batch_eq:
  assumes "try_vessel_batch F src ms w = (r, w')"
  shows "(\<exists>tr. trace w' = trace w @ tr \<and> list_all is_call tr \<and> single_inserts tr = 0)
     \<and> (\<exists>ds. target w' = target w @ ds \<and> set ds \<subseteq> (\<Union>m\<in>set ms. set (retained (src m)))
           \<and> (r \<noteq> None \<longrightarrow> ds = concat (map (\<lambda>m. retained (src m)) ms)))
     \<and> (r = None \<or> r = Some (batch_counters src ms))"
proof -
  obtain b1 w1 where c: "connect F w = (b1, w1)" by (cases "connect F w")
  note e1 = connect_eq [OF c]
  show ?thesis
  proof (cases b1)
    case False
    with assms c have "r = None" "w' = w1" by (simp_all add: try_vessel_batch_def)
    with e1 show ?thesis by simp
  next
    case True
    obtain r2 w2 where vl: "vessel_loop F src ms (0, 0, 0, 0) w1 = (r2, w2)"
      by (cases "vessel_loop F src ms (0, 0, 0, 0) w1")
    from vessel_loop_eq [OF vl] obtain tr2 ds2 where
      tr2: "trace w2 = trace w1 @ tr2" "list_all is_call tr2" "single_inserts tr2 = 0" and
      ds2: "target w2 = target w1 @ ds2" "set ds2 \<subseteq> (\<Union>m\<in>set ms. set (retained (src m)))"
        "r2 \<noteq> None \<longrightarrow> ds2 = concat (map (\<lambda>m. retained (src m)) ms)" and
      r2: "r2 = None \<or> r2 = Some (add_counters (0, 0, 0, 0) (batch_counters src ms))"
      by blast
    have z: "add_counters (0, 0, 0, 0) (batch_counters src ms) = batch_counters src ms"
      by (simp add: add_counters_def batch_counters_def)
    show ?thesis
    proof (cases r2)
      case None
      with assms c True vl have "r = None" "w' = w2" by (simp_all add: try_vessel_batch_def)
      with e1 tr2 ds2 show ?thesis by auto
    next
      case (Some cnt)
      obtain b3 w3 where cl: "close F w2 = (b3, w3)" by (cases "close F w2")
      note e3 = close_eq [OF cl]
      from assms c True vl Some cl have w': "w' = w3" and r: "r = (if b3 then Some cnt else None)"
        by (auto simp: try_vessel_batch_def split: bool.splits)
      have t: "trace w' = trace w @ (Connect # tr2 @ [Close])" using e1 tr2 e3 w' by simp
      have t2: "list_all is_call (Connect # tr2 @ [Close])"
        "single_inserts (Connect # tr2 @ [Close]) = 0" using tr2 by simp_all
      have d: "target w' = target w @ ds2" using e1 ds2 e3 w' by simp
      from t t2 d ds2 r2 z r Some show ?thesis by (cases b3) auto
    qed
  qed
qed

subsection \<open>A store that never fails\<close>

lemma insert_loop_all_ok: "insert_loop all_ok filtered idx w = (b, w') \<Longrightarrow> b"
proof (induction idx arbitrary: w)
  case Nil
  then show ?case by simp
next
  case (Cons i rest)
  then show ?case
    by (auto simp: Let_def insert_many_def call_def all_ok_def split: if_splits simp del: take_eq_Nil)
qed

lemma vessel_step_all_ok:
  assumes "vessel_step all_ok src mmsi cnt w = (r, w')"
  shows "r \<noteq> None"
proof -
  obtain vp vf td fd where cnt: "cnt = (vp, vf, td, fd)" by (cases cnt)
  let ?fl = "filter_docs (src mmsi) []"
  obtain w1 where f: "find_mmsi all_ok src mmsi w = (Some (src mmsi), w1)"
    by (simp add: find_mmsi_def call_def all_ok_def)
  obtain b2 w2 where
    il: "insert_loop all_ok ?fl (range_step (length ?fl) batch_size_filter) w1 = (b2, w2)"
    by (cases "insert_loop all_ok ?fl (range_step (length ?fl) batch_size_filter) w1")
  from insert_loop_all_ok [OF il] have b2 .
  with assms cnt f il show ?thesis
    by (auto simp: vessel_step_def Let_def split: if_splits)
qed

lemma vessel_loop_all_ok: "vessel_loop all_ok src ms cnt w = (r, w') \<Longrightarrow> r \<noteq> None"
proof (induction ms arbitrary: cnt w)
  case Nil
  then show ?case by (cases r) simp_all
next
  case (Cons m ms)
  obtain r1 w1 where vs: "vessel_step all_ok src m cnt w = (r1, w1)"
    by (cases "vessel_step all_ok src m cnt w")
  from vessel_step_all_ok [OF vs] obtain c1 where "r1 = Some c1" by auto
  with Cons.prems vs have "vessel_loop all_ok src ms c1 w1 = (r, w')" by simp
  from Cons.IH [OF this] show ?case .
qed

lemma try_vessel_batch_all_ok:
  assumes "try_vessel_batch all_ok src ms w = (r, w')"
  shows "r \<noteq> None"
proof -
  obtain w1 where c: "connect all_ok w = (True, w1)"
    by (simp add: connect_def call_def all_ok_def)
  obtain r2 w2 where vl: "vessel_loop all_ok src ms (0, 0, 0, 0) w1 = (r2, w2)"
    by (cases "vessel_loop all_ok src ms (0, 0, 0, 0) w1")
  from vessel_loop_all_ok [OF vl] obtain c2 where r2: "r2 = Some c2" by auto
  obtain w3 where cl: "close all_ok w2 = (True, w3)"
    by (simp add: close_def call_def all_ok_def)
  from assms c vl r2 cl have "r = Some c2" by (simp add: try_vessel_batch_def)
  then show ?thesis by simp
qed

lemma process_vessel_batch_all_ok:
  "process_vessel_batch all_ok src ms w = (r, w') \<Longrightarrow>
     r = Some (batch_counters src ms) \<and> written_since w w' = concat (map (\<lambda>m. retained (src m)) ms)"
proof -
  assume a: "process_vessel_batch all_ok src ms w = (r, w')"
  obtain r1 w1 where tv: "try_vessel_batch all_ok src ms (mark (Attempt 0) w) = (r1, w1)"
    by (cases "try_vessel_batch all_ok src ms (mark (Attempt 0) w)")
  from try_vessel_batch_all_ok [OF tv] obtain c where c: "r1 = Some c" by auto
  from try_vessel_batch_eq [OF tv] c have
    "target w1 = target w @ concat (map (\<lambda>m. retained (src m)) ms)" "c = batch_counters src ms"
    by auto
  moreover from a tv c have "r = Some c" "w' = w1"
    by (simp_all add: process_vessel_batch_def process_vessel_batch_retries_def MAX_RETRIES_def
        upt_rec)
  ultimately show ?thesis by (simp add: written_since_append)
qed

section \<open>The retry loops\<close>

subsection \<open>process\_vessel\_batch\<close>

lemma vessel_batch_loop_eq:
  "vessel_batch_loop F src ms M as w = (r, w') \<Longrightarrow>
     (\<exists>tr. trace w' = trace w @ tr \<and> attempts tr \<le> length as \<and> fallbacks tr = 0
           \<and> single_inserts tr = 0
           \<and> (\<exists>n. n \<le> length (filter (\<lambda>a. int a < int M - 1) as)
                  \<and> delays tr = replicate n RETRY_DELAY))
     \<and> (\<exists>ds. target w' = target w @ ds \<and> set ds \<subseteq> (\<Union>m\<in>set ms. set (retained (src m)))
           \<and> (r = None \<or> r = Some (0, 0, 0, 0)
               \<or> (r = Some (batch_counters src ms)
                   \<and> (\<exists>pre. ds = pre @ concat (map (\<lambda>m. retained (src m)) ms)))))
     \<and> (r = None \<longrightarrow> list_all (\<lambda>a. int a < int M - 1) as)"
proof (induction as arbitrary: w)
  case Nil
  then show ?case by simp
next
  case (Cons a as)
  obtain r1 w1 where tv: "try_vessel_batch F src ms (mark (Attempt a) w) = (r1, w1)"
    by (cases "try_vessel_batch F src ms (mark (Attempt a) w)")
  from try_vessel_batch_eq [OF tv] obtain tr1 ds1 where
    tr1: "trace w1 = trace w @ Attempt a # tr1" "list_all is_call tr1" "single_inserts tr1 = 0" and
    ds1: "target w1 = target w @ ds1" "set ds1 \<subseteq> (\<Union>m\<in>set ms. set (retained (src m)))"
      "r1 \<noteq> None \<longrightarrow> ds1 = concat (map (\<lambda>m. retained (src m)) ms)" and
    r1: "r1 = None \<or> r1 = Some (batch_counters src ms)"
    by auto
  note q1 = calls_quiet [OF tr1(2)]
  show ?case
  proof (cases r1)
    case (Some cnt)
    with Cons.prems tv have "r = Some cnt" "w' = w1" by simp_all
    moreover have "delays (Attempt a # tr1) = replicate 0 RETRY_DELAY" using q1 by simp
    ultimately show ?thesis using tr1 ds1 r1 q1 Some
      by (intro conjI exI [of _ "Attempt a # tr1"] exI [of _ ds1] exI [of _ "0::nat"]) auto
  next
    case None
    show ?thesis
    proof (cases "int a < int M - 1")
      case False
      with Cons.prems tv None have "r = Some (0, 0, 0, 0)" "w' = w1" by simp_all
      moreover have "delays (Attempt a # tr1) = replicate 0 RETRY_DELAY" using q1 by simp
      ultimately show ?thesis using tr1 ds1 q1
        by (intro conjI exI [of _ "Attempt a # tr1"] exI [of _ ds1] exI [of _ "0::nat"]) auto
    next
      case True
      with Cons.prems tv None have
        "vessel_batch_loop F src ms M as (sleep RETRY_DELAY w1) = (r, w')" by simp
      from Cons.IH [OF this] obtain tr2 ds2 n where
        tr2: "trace w' = trace w1 @ Sleep RETRY_DELAY # tr2" "attempts tr2 \<le> length as"
          "fallbacks tr2 = 0" "single_inserts tr2 = 0"
          "n \<le> length (filter (\<lambda>a. int a < int M - 1) as)" "delays tr2 = replicate n RETRY_DELAY" and
        ds2: "target w' = target w1 @ ds2" "set ds2 \<subseteq> (\<Union>m\<in>set ms. set (retained (src m)))"
          "r = None \<or> r = Some (0, 0, 0, 0)
           \<or> (r = Some (batch_counters src ms)
               \<and> (\<exists>pre. ds2 = pre @ concat (map (\<lambda>m. retained (src m)) ms)))" and
        r: "r = None \<longrightarrow> list_all (\<lambda>a. int a < int M - 1) as"
        by auto
      let ?tr = "Attempt a # tr1 @ Sleep RETRY_DELAY # tr2"
      have t: "trace w' = trace w @ ?tr" using tr1 tr2 by simp
      have t1: "attempts ?tr \<le> length (a # as)" "fallbacks ?tr = 0" "single_inserts ?tr = 0"
        using q1 tr1 tr2 by simp_all
      have t2: "Suc n \<le> length (filter (\<lambda>a. int a < int M - 1) (a # as))"
        "delays ?tr = replicate (Suc n) RETRY_DELAY"
        using q1 tr2 True by simp_all
      have d: "target w' = target w @ (ds1 @ ds2)" using ds1 ds2 by simp
      have d1: "set (ds1 @ ds2) \<subseteq> (\<Union>m\<in>set ms. set (retained (src m)))" using ds1 ds2 by simp
      have d2: "r = None \<or> r = Some (0, 0, 0, 0)
           \<or> (r = Some (batch_counters src ms)
               \<and> (\<exists>pre. ds1 @ ds2 = pre @ concat (map (\<lambda>m. retained (src m)) ms)))"
        using ds2(3) by (metis append.assoc)
      have r': "r = None \<longrightarrow> list_all (\<lambda>a. int a < int M - 1) (a # as)" using r True by simp
      from t t1 t2 d d1 d2 r' show ?thesis by blast
    qed
  qed
qed

lemma process_vessel_batch_retries_eq:
  obtains tr where
    "events_since w (snd (process_vessel_batch_retries M F src ms w)) = tr"
    "attempts tr \<le> M" "fallbacks tr = 0" "single_inserts tr = 0"
    "\<exists>n. n \<le> length (filter (\<lambda>a. int a < int M - 1) [0..<M]) \<and> delays tr = replicate n RETRY_DELAY"
proof -
  obtain r w' where pc: "vessel_batch_loop F src ms M [0..<M] w = (r, w')"
    by (cases "vessel_batch_loop F src ms M [0..<M] w")
  from vessel_batch_loop_eq [OF pc] obtain tr where
    p: "trace w' = trace w @ tr" "attempts tr \<le> length [0..<M]" "fallbacks tr = 0"
      "single_inserts tr = 0"
      "\<exists>n. n \<le> length (filter (\<lambda>a. int a < int M - 1) [0..<M]) \<and> delays tr = replicate n RETRY_DELAY"
    by blast
  have "events_since w (snd (process_vessel_batch_retries M F src ms w)) = tr"
    using pc p(1) by (simp add: process_vessel_batch_retries_def events_since_append)
  with p that show ?thesis by simp
qed

lemma batch_counters_ok:
  "batch_counters src ms = (vp, vf, td, fd) \<Longrightarrow>
     0 \<le> vp \<and> 0 \<le> vf \<and> 0 \<le> td \<and> 0 \<le> fd \<and> vf \<le> vp \<and> fd \<le> td"
proof -
  assume b: "batch_counters src ms = (vp, vf, td, fd)"
  have "(\<Sum>m\<leftarrow>ms. int (length (retained (src m)))) \<le> (\<Sum>m\<leftarrow>ms. int (length (src m)))"
    by (rule sum_list_mono) (simp add: length_retained)
  moreover have "0 \<le> (\<Sum>m\<leftarrow>ms. int (length (retained (src m))))"
    by (rule sum_list_nonneg) auto
  moreover have "0 \<le> (\<Sum>m\<leftarrow>ms. int (length (src m)))"
    by (rule sum_list_nonneg) auto
  moreover have "length (filter (\<lambda>m. retained (src m) \<noteq> []) ms) \<le> length ms"
    by (rule length_filter_le)
  ultimately show ?thesis using b by (auto simp: batch_counters_def)
qed

lemma process_vessel_batch_result:
  assumes "0 < M"
  obtains w' where "process_vessel_batch_retries M F src ms w = (Some (0, 0, 0, 0), w')"
  | w' where "process_vessel_batch_retries M F src ms w = (Some (batch_counters src ms), w')"
proof -
  obtain r w' where pc: "vessel_batch_loop F src ms M [0..<M] w = (r, w')"
    by (cases "vessel_batch_loop F src ms M [0..<M] w")
  from vessel_batch_loop_eq [OF pc] have
    r: "r = None \<or> r = Some (0, 0, 0, 0) \<or> r = Some (batch_counters src ms)"
    and n: "r = None \<longrightarrow> list_all (\<lambda>a. int a < int M - 1) [0..<M]"
    by blast+
  have "M - 1 \<in> set [0..<M]" using assms by simp
  moreover have "\<not> int (M - 1) < int M - 1" using assms by simp
  ultimately have "\<not> list_all (\<lambda>a. int a < int M - 1) [0..<M]"
    unfolding list_all_iff by blast
  with n have "r \<noteq> None" by blast
  with r pc that show ?thesis by (auto simp: process_vessel_batch_retries_def)
qed

lemma process_vessel_batch_returns:
  assumes "0 < M"
  shows "fst (process_vessel_batch_retries M F src ms w) \<noteq> None"
  by (rule process_vessel_batch_result [OF assms, of F src ms w]) simp_all

subsection \<open>process\_chunk\<close>

lemma inserted_singly_Suc:
  "inserted_singly F c (Suc n) = (if F c = Ok then 1 else 0) + inserted_singly F (Suc c) n"
proof -
  have "[0..<Suc n] = 0 # map Suc [0..<n]" by (simp add: upt_conv_Cons map_Suc_upt del: upt_Suc)
  then show ?thesis
    by (simp add: inserted_singly_def filter_map o_def del: upt_Suc)
qed

lemma inserted_singly_bounds: "0 \<le> inserted_singly F c n \<and> inserted_singly F c n \<le> int n"
proof -
  have "length (filter (\<lambda>i. F (c + i) = Ok) [0..<n]) \<le> length [0..<n]" by (rule length_filter_le)
  then show ?thesis by (simp add: inserted_singly_def)
qed

lemma insert_each_eq:
  "insert_each F recs s w = (n, w') \<Longrightarrow>
     trace w' = trace w @ replicate (length recs) InsertOne
     \<and> clock w' = clock w + length recs
     \<and> n = s + inserted_singly F (clock w) (length recs)
     \<and> (\<exists>ds. target w' = target w @ ds \<and> set ds \<subseteq> set recs)"
proof (induction recs arbitrary: s w)
  case Nil
  then show ?case by (simp add: inserted_singly_def)
next
  case (Cons d recs)
  obtain b1 w1 where io: "insert_one F d w = (b1, w1)" by (cases "insert_one F d w")
  from insert_one_eq [OF io] obtain ds1 where
    e1: "b1 = (F (clock w) = Ok)" "trace w1 = trace w @ [InsertOne]" "clock w1 = Suc (clock w)"
      "target w1 = target w @ ds1" "set ds1 \<subseteq> {d}"
    by blast
  from Cons.prems io have "insert_each F recs (if b1 then s + 1 else s) w1 = (n, w')"
    by (cases b1) simp_all
  from Cons.IH [OF this] obtain ds2 where
    e2: "trace w' = trace w1 @ replicate (length recs) InsertOne"
      "clock w' = clock w1 + length recs"
      "n = (if b1 then s + 1 else s) + inserted_singly F (clock w1) (length recs)"
      "target w' = target w1 @ ds2" "set ds2 \<subseteq> set recs"
    by blast
  have "target w' = target w @ (ds1 @ ds2)" "set (ds1 @ ds2) \<subseteq> set (d # recs)"
    using e1 e2 by auto
  moreover have "trace w' = trace w @ replicate (length (d # recs)) InsertOne"
    using e1 e2 by simp
  moreover have "n = s + inserted_singly F (clock w) (length (d # recs))"
    using e1 e2 by (simp add: inserted_singly_Suc)
  moreover have "clock w' = clock w + length (d # recs)" using e1 e2 by simp
  ultimately show ?case by blast
qed

lemma fallback_eq:
  assumes "fallback F records w = (n, w')"
  shows "trace w' = trace w @ Fallback # Connect #
            (if F (clock w) = Ok then replicate (length records) InsertOne @ [Close] else [])"
    and "n = (if F (clock w) = Ok \<and> F (clock w + 1 + length records) = Ok
              then inserted_singly F (clock w + 1) (length records) else 0)"
    and "\<exists>ds. target w' = target w @ ds \<and> set ds \<subseteq> set records"
proof -
  obtain b1 w1 where c: "connect F (mark Fallback w) = (b1, w1)"
    by (cases "connect F (mark Fallback w)")
  from connect_eq [OF c] have e1: "b1 = (F (clock w) = Ok)"
    "trace w1 = trace w @ [Fallback, Connect]" "target w1 = target w" "clock w1 = Suc (clock w)"
    by simp_all
  have "trace w' = trace w @ Fallback # Connect #
            (if F (clock w) = Ok then replicate (length records) InsertOne @ [Close] else [])
     \<and> n = (if F (clock w) = Ok \<and> F (clock w + 1 + length records) = Ok
              then inserted_singly F (clock w + 1) (length records) else 0)
     \<and> (\<exists>ds. target w' = target w @ ds \<and> set ds \<subseteq> set records)"
  proof (cases b1)
    case False
    with assms c have "n = 0" "w' = w1" by (simp_all add: fallback_def)
    with e1 False show ?thesis by simp
  next
    case True
    obtain s w2 where ie: "insert_each F records 0 w1 = (s, w2)"
      by (cases "insert_each F records 0 w1")
    from insert_each_eq [OF ie] obtain ds2 where
      e2: "trace w2 = trace w1 @ replicate (length records) InsertOne"
        "clock w2 = clock w1 + length records"
        "s = inserted_singly F (clock w1) (length records)"
        "target w2 = target w1 @ ds2" "set ds2 \<subseteq> set records"
      by auto
    obtain b3 w3 where cl: "close F w2 = (b3, w3)" by (cases "close F w2")
    note e3 = close_eq [OF cl]
    from assms c True ie cl have "w' = w3" "n = (if b3 then s else 0)"
      by (auto simp: fallback_def split: bool.splits)
    with e1 e2 e3 True show ?thesis by auto
  qed
  then show "trace w' = trace w @ Fallback # Connect #
            (if F (clock w) = Ok then replicate (length records) InsertOne @ [Close] else [])"
    and "n = (if F (clock w) = Ok \<and> F (clock w + 1 + length records) = Ok
              then inserted_singly F (clock w + 1) (length records) else 0)"
    and "\<exists>ds. target w' = target w @ ds \<and> set ds \<subseteq> set records"
    by blast+
qed

lemma try_chunk_eq:
  assumes "try_chunk F records w = (r, w')"
  shows "(\<exists>tr. trace w' = trace w @ tr \<and> list_all is_call tr \<and> single_inserts tr = 0
            \<and> bulk_inserts tr \<le> 1)
     \<and> (\<exists>ds. target w' = target w @ ds \<and> set ds \<subseteq> set records \<and> (r \<noteq> None \<longrightarrow> ds = records))
     \<and> (r = None \<or> r = Some (int (length records)))"
proof -
  obtain b1 w1 where c: "connect F w = (b1, w1)" by (cases "connect F w")
  note e1 = connect_eq [OF c]
  show ?thesis
  proof (cases b1)
    case False
    with assms c have "r = None" "w' = w1" by (simp_all add: try_chunk_def)
    with e1 show ?thesis by simp
  next
    case True
    obtain b2 w2 where im: "(if records \<noteq> [] then insert_many F records w1 else (True, w1)) = (b2, w2)"
      by (cases "if records \<noteq> [] then insert_many F records w1 else (True, w1)")
    have "\<exists>tr2 ds2. trace w2 = trace w1 @ tr2 \<and> list_all is_call tr2 \<and> single_inserts tr2 = 0
            \<and> bulk_inserts tr2 \<le> 1 \<and> target w2 = target w1 @ ds2 \<and> set ds2 \<subseteq> set records
            \<and> (b2 \<longrightarrow> ds2 = records)"
    proof (cases "records = []")
      case True
      with im show ?thesis by simp
    next
      case False
      with im have "insert_many F records w1 = (b2, w2)" by simp
      from insert_many_eq [OF this] obtain ds where
        "trace w2 = trace w1 @ [InsertMany (length records)]"
        "target w2 = target w1 @ ds" "set ds \<subseteq> set records" "b2 \<longrightarrow> ds = records"
        by blast
      then show ?thesis
        by (intro exI [of _ "[InsertMany (length records)]"] exI [of _ ds]) simp
    qed
    then obtain tr2 ds2 where
      e2: "trace w2 = trace w1 @ tr2" "list_all is_call tr2" "single_inserts tr2 = 0"
        "bulk_inserts tr2 \<le> 1" "target w2 = target w1 @ ds2" "set ds2 \<subseteq> set records"
        "b2 \<longrightarrow> ds2 = records"
      by blast
    show ?thesis
    proof (cases b2)
      case False
      with assms c True im have "r = None" "w' = w2"
        by (auto simp: try_chunk_def split: if_splits)
      with e1 e2 show ?thesis
        by (intro conjI exI [of _ "Connect # tr2"] exI [of _ ds2]) simp_all
    next
      case b2t: True
      obtain b3 w3 where cl: "close F w2 = (b3, w3)" by (cases "close F w2")
      note e3 = close_eq [OF cl]
      from assms c True im b2t cl have "w' = w3"
        "r = (if b3 then Some (int (length records)) else None)"
        by (auto simp: try_chunk_def split: if_splits bool.splits)
      with e1 e2 e3 b2t show ?thesis
        by (intro conjI exI [of _ "Connect # tr2 @ [Close]"] exI [of _ ds2]) auto
    qed
  qed
qed

lemma chunk_loop_eq:
  "chunk_loop F records M as w = (r, w') \<Longrightarrow>
     (\<exists>pre post. trace w' = trace w @ pre @ post
         \<and> attempts pre \<le> length as \<and> bulk_inserts pre \<le> length as
         \<and> fallbacks pre = 0 \<and> single_inserts pre = 0
         \<and> (\<exists>n. n \<le> length (filter (\<lambda>a. int a < int M - 1) as)
                \<and> delays pre = replicate n RETRY_DELAY)
         \<and> attempts post = 0 \<and> bulk_inserts post = 0 \<and> fallbacks post \<le> 1 \<and> delays post = [])
     \<and> (\<exists>ds. target w' = target w @ ds \<and> set ds \<subseteq> set records)
     \<and> (r = None \<longrightarrow> list_all (\<lambda>a. int a < int M - 1) as)
     \<and> (r = None \<or> (\<exists>n. r = Some n \<and> 0 \<le> n \<and> n \<le> int (length records)))"
proof (induction as arbitrary: w)
  case Nil
  then show ?case by simp
next
  case (Cons a as)
  obtain r1 w1 where tc: "try_chunk F records (mark (Attempt a) w) = (r1, w1)"
    by (cases "try_chunk F records (mark (Attempt a) w)")
  from try_chunk_eq [OF tc] obtain tr1 ds1 where
    tr1: "trace w1 = trace w @ Attempt a # tr1" "list_all is_call tr1" "single_inserts tr1 = 0"
      "bulk_inserts tr1 \<le> 1" and
    ds1: "target w1 = target w @ ds1" "set ds1 \<subseteq> set records" and
    r1: "r1 = None \<or> r1 = Some (int (length records))"
    by auto
  note q1 = calls_quiet [OF tr1(2)]
  have here: "attempts (Attempt a # tr1) \<le> length (a # as)"
    "bulk_inserts (Attempt a # tr1) \<le> length (a # as)"
    "fallbacks (Attempt a # tr1) = 0" "single_inserts (Attempt a # tr1) = 0"
    "delays (Attempt a # tr1) = replicate 0 RETRY_DELAY"
    using q1 tr1 by simp_all
  show ?case
  proof (cases r1)
    case (Some k)
    with Cons.prems tc have rw: "r = Some k" "w' = w1" by simp_all
    have "trace w' = trace w @ (Attempt a # tr1) @ []" using tr1 rw by simp
    with here ds1 r1 rw Some show ?thesis
      by (intro conjI exI [of _ "Attempt a # tr1"] exI [of _ "[]"] exI [of _ ds1]
          exI [of _ "0::nat"]) auto
  next
    case None
    show ?thesis
    proof (cases "int a < int M - 1")
      case False
      obtain n2 w2 where fb: "fallback F records w1 = (n2, w2)" by (cases "fallback F records w1")
      note f = fallback_eq [OF fb]
      from Cons.prems tc None False fb have rw: "r = Some n2" "w' = w2" by simp_all
      let ?post = "Fallback # Connect #
            (if F (clock w1) = Ok then replicate (length records) InsertOne @ [Close] else [])"
      have p: "attempts ?post = 0" "bulk_inserts ?post = 0" "fallbacks ?post \<le> 1" "delays ?post = []"
        by (simp_all add: attempts_def bulk_inserts_def fallbacks_def delays_def)
      have t: "trace w' = trace w @ (Attempt a # tr1) @ ?post" using tr1 f(1) rw by simp
      from f(3) obtain ds2 where ds2: "target w2 = target w1 @ ds2" "set ds2 \<subseteq> set records"
        by blast
      have d: "target w' = target w @ (ds1 @ ds2)" "set (ds1 @ ds2) \<subseteq> set records"
        using ds1 ds2 rw by simp_all
      have n2: "0 \<le> n2 \<and> n2 \<le> int (length records)"
        using f(2) inserted_singly_bounds [of F "clock w1 + 1" "length records"] by simp
      from t here p d n2 rw show ?thesis
        by (intro conjI exI [of _ "Attempt a # tr1"] exI [of _ ?post] exI [of _ "ds1 @ ds2"]
            exI [of _ "0::nat"]) simp_all
    next
      case True
      with Cons.prems tc None have "chunk_loop F records M as (sleep RETRY_DELAY w1) = (r, w')"
        by simp
      from Cons.IH [OF this] obtain pre post ds2 n where
        tr2: "trace w' = trace w1 @ Sleep RETRY_DELAY # pre @ post"
          "attempts pre \<le> length as" "bulk_inserts pre \<le> length as"
          "fallbacks pre = 0" "single_inserts pre = 0"
          "n \<le> length (filter (\<lambda>a. int a < int M - 1) as)" "delays pre = replicate n RETRY_DELAY"
          "attempts post = 0" "bulk_inserts post = 0" "fallbacks post \<le> 1" "delays post = []" and
        ds2: "target w' = target w1 @ ds2" "set ds2 \<subseteq> set records" and
        r: "r = None \<longrightarrow> list_all (\<lambda>a. int a < int M - 1) as"
          "r = None \<or> (\<exists>n. r = Some n \<and> 0 \<le> n \<and> n \<le> int (length records))"
        by auto
      let ?pre = "Attempt a # tr1 @ Sleep RETRY_DELAY # pre"
      have t: "trace w' = trace w @ ?pre @ post" using tr1 tr2 by simp
      have t1: "attempts ?pre \<le> length (a # as)" "bulk_inserts ?pre \<le> length (a # as)"
        "fallbacks ?pre = 0" "single_inserts ?pre = 0"
        using q1 tr1 tr2 by simp_all
      have t2: "Suc n \<le> length (filter (\<lambda>a. int a < int M - 1) (a # as))"
        "delays ?pre = replicate (Suc n) RETRY_DELAY"
        using q1 tr2 True by simp_all
      have d: "target w' = target w @ (ds1 @ ds2)" "set (ds1 @ ds2) \<subseteq> set records"
        using ds1 ds2 by simp_all
      have r': "r = None \<longrightarrow> list_all (\<lambda>a. int a < int M - 1) (a # as)" using r True by simp
      from t t1 t2 tr2 d r r' show ?thesis by blast
    qed
  qed
qed

lemma process_chunk_retries_eq:
  obtains pre post where
    "events_since w (snd (process_chunk_retries M F records w)) = pre @ post"
    "attempts pre \<le> M" "bulk_inserts pre \<le> M" "fallbacks pre = 0" "single_inserts pre = 0"
    "\<exists>n. n \<le> length (filter (\<lambda>a. int a < int M - 1) [0..<M]) \<and> delays pre = replicate n RETRY_DELAY"
    "attempts post = 0" "bulk_inserts post = 0" "fallbacks post \<le> 1" "delays post = []"
proof -
  obtain r w' where pc: "chunk_loop F records M [0..<M] w = (r, w')"
    by (cases "chunk_loop F records M [0..<M] w")
  from chunk_loop_eq [OF pc] obtain pre post where
    p: "trace w' = trace w @ pre @ post"
      "attempts pre \<le> length [0..<M]" "bulk_inserts pre \<le> length [0..<M]"
      "fallbacks pre = 0" "single_inserts pre = 0"
      "\<exists>n. n \<le> length (filter (\<lambda>a. int a < int M - 1) [0..<M]) \<and> delays pre = replicate n RETRY_DELAY"
      "attempts post = 0" "bulk_inserts post = 0" "fallbacks post \<le> 1" "delays post = []"
    by blast
  have "events_since w (snd (process_chunk_retries M F records w)) = pre @ post"
    using pc p(1) by (simp add: process_chunk_retries_def events_since_append)
  with p that show ?thesis by simp
qed

lemma process_chunk_returns:
  assumes "0 < M"
  shows "fst (process_chunk_retries M F records w) \<noteq> None"
proof -
  obtain r w' where pc: "chunk_loop F records M [0..<M] w = (r, w')"
    by (cases "chunk_loop F records M [0..<M] w")
  from chunk_loop_eq [OF pc] have
    n: "r = None \<longrightarrow> list_all (\<lambda>a. int a < int M - 1) [0..<M]" by blast
  have "M - 1 \<in> set [0..<M]" using assms by simp
  moreover have "\<not> int (M - 1) < int M - 1" using assms by simp
  ultimately have "\<not> list_all (\<lambda>a. int a < int M - 1) [0..<M]"
    unfolding list_all_iff by blast
  with n pc show ?thesis by (simp add: process_chunk_retries_def)
qed




subsection \<open>The query demo\<close>

lemma try_query_eq:
  assumes "try_query F w = (b, w')"
  shows "\<exists>tr. trace w' = trace w @ tr \<and> list_all is_call tr"
proof -
  obtain b1 w1 where c: "connect F w = (b1, w1)" by (cases "connect F w")
  note e1 = connect_eq [OF c]
  show ?thesis
  proof (cases b1)
    case False
    with assms c have "w' = w1" by (simp add: try_query_def)
    with e1 show ?thesis by simp
  next
    case True
    with assms c have "query F w1 = (b, w')" by (simp add: try_query_def)
    from query_eq [OF this] e1 show ?thesis by simp
  qed
qed

lemma query_retry_loop_eq:
  "query_retry_loop F rs w = w' \<Longrightarrow>
     \<exists>tr n. trace w' = trace w @ tr \<and> attempts tr \<le> length rs \<and> fallbacks tr = 0
          \<and> n \<le> length rs \<and> delays tr = map (\<lambda>r. RETRY_DELAY * (r + 1)) (take n rs)"
proof (induction rs arbitrary: w)
  case Nil
  then show ?case by simp
next
  case (Cons a rs)
  obtain b1 w1 where tq: "try_query F (mark (Attempt a) w) = (b1, w1)"
    by (cases "try_query F (mark (Attempt a) w)")
  from try_query_eq [OF tq] obtain tr1 where
    tr1: "trace w1 = trace w @ Attempt a # tr1" "list_all is_call tr1" by auto
  note q1 = calls_quiet [OF tr1(2)]
  show ?case
  proof (cases b1)
    case True
    with Cons.prems tq have "w' = w1" by simp
    with tr1 q1 show ?thesis
      by (intro exI [of _ "Attempt a # tr1"] exI [of _ "0::nat"]) simp
  next
    case False
    with Cons.prems tq have
      "query_retry_loop F rs (sleep (RETRY_DELAY * (a + 1)) w1) = w'" by simp
    from Cons.IH [OF this] obtain tr2 n where
      tr2: "trace w' = trace w1 @ Sleep (RETRY_DELAY * (a + 1)) # tr2" "attempts tr2 \<le> length rs"
        "fallbacks tr2 = 0" "n \<le> length rs"
        "delays tr2 = map (\<lambda>r. RETRY_DELAY * (r + 1)) (take n rs)"
      by auto
    let ?tr = "Attempt a # tr1 @ Sleep (RETRY_DELAY * (a + 1)) # tr2"
    have "trace w' = trace w @ ?tr" using tr1 tr2 by simp
    moreover have "attempts ?tr \<le> length (a # rs)" "fallbacks ?tr = 0" using q1 tr2 by simp_all
    moreover have "Suc n \<le> length (a # rs)"
      "delays ?tr = map (\<lambda>r. RETRY_DELAY * (r + 1)) (take (Suc n) (a # rs))"
      using q1 tr2 by simp_all
    ultimately show ?thesis by blast
  qed
qed

section \<open>Failed attempts and the delays between them\<close>

subsection \<open>The outcome of a try body depends on the call count only\<close>

lemma failures_from_le: "failures_from ok body n w \<le> n"
proof (induction n arbitrary: w)
  case 0
  show ?case by simp
next
  case (Suc n)
  obtain r w1 where "body w = (r, w1)" by (cases "body w")
  with Suc [of w1] show ?case by simp
qed

lemma failures_from_clock:
  assumes "\<And>w v. clock w = clock v \<Longrightarrow>
             ok (fst (body w)) = ok (fst (body v)) \<and> clock (snd (body w)) = clock (snd (body v))"
  shows "clock w = clock v \<Longrightarrow> failures_from ok body n w = failures_from ok body n v"
proof (induction n arbitrary: w v)
  case 0
  show ?case by simp
next
  case (Suc n)
  from assms [OF Suc.prems] have
    e: "ok (fst (body w)) = ok (fst (body v))" "clock (snd (body w)) = clock (snd (body v))"
    by simp_all
  from Suc.IH [OF e(2)] e(1) show ?case by (simp add: case_prod_unfold)
qed

lemma connect_clock:
  "clock w = clock v \<Longrightarrow>
     fst (connect F w) = fst (connect F v) \<and> clock (snd (connect F w)) = clock (snd (connect F v))"
  by (simp add: connect_def call_def split: outcome.splits)

lemma close_clock:
  "clock w = clock v \<Longrightarrow>
     fst (close F w) = fst (close F v) \<and> clock (snd (close F w)) = clock (snd (close F v))"
  by (simp add: close_def call_def split: outcome.splits)

lemma query_clock:
  "clock w = clock v \<Longrightarrow>
     fst (query F w) = fst (query F v) \<and> clock (snd (query F w)) = clock (snd (query F v))"
  by (simp add: query_def call_def split: outcome.splits)

lemma find_mmsi_clock:
  "clock w = clock v \<Longrightarrow>
     fst (find_mmsi F src m w) = fst (find_mmsi F src m v)
     \<and> clock (snd (find_mmsi F src m w)) = clock (snd (find_mmsi F src m v))"
  by (simp add: find_mmsi_def call_def split: outcome.splits)

lemma insert_many_clock:
  "clock w = clock v \<Longrightarrow>
     fst (insert_many F docs w) = fst (insert_many F docs v)
     \<and> clock (snd (insert_many F docs w)) = clock (snd (insert_many F docs v))"
  by (simp add: insert_many_def call_def split: outcome.splits)

lemma try_query_clock:
  assumes "clock w = clock v"
  shows "fst (try_query F w) = fst (try_query F v)
         \<and> clock (snd (try_query F w)) = clock (snd (try_query F v))"
proof -
  obtain b1 w1 where c1: "connect F w = (b1, w1)" by (cases "connect F w")
  obtain b2 v1 where c2: "connect F v = (b2, v1)" by (cases "connect F v")
  from connect_clock [OF assms, of F] c1 c2 have e: "b1 = b2" "clock w1 = clock v1" by simp_all
  show ?thesis
  proof (cases b1)
    case True
    with c1 c2 e query_clock [OF e(2), of F] show ?thesis by (simp add: try_query_def)
  next
    case False
    with c1 c2 e show ?thesis by (simp add: try_query_def)
  qed
qed

lemma try_chunk_clock:
  assumes "clock w = clock v"
  shows "fst (try_chunk F records w) = fst (try_chunk F records v)
         \<and> clock (snd (try_chunk F records w)) = clock (snd (try_chunk F records v))"
proof -
  obtain b1 w1 where c1: "connect F w = (b1, w1)" by (cases "connect F w")
  obtain b2 v1 where c2: "connect F v = (b2, v1)" by (cases "connect F v")
  from connect_clock [OF assms, of F] c1 c2 have e: "b2 = b1" "clock w1 = clock v1" by simp_all
  let ?iw = "if records \<noteq> [] then insert_many F records w1 else (True, w1)"
  let ?iv = "if records \<noteq> [] then insert_many F records v1 else (True, v1)"
  obtain b3 w2 where i1: "?iw = (b3, w2)" by (cases ?iw)
  obtain b4 v2 where i2: "?iv = (b4, v2)" by (cases ?iv)
  from insert_many_clock [OF e(2), of F records] i1 i2 e(2)
  have f: "b4 = b3" "clock w2 = clock v2" by (auto split: if_splits)
  obtain b5 w3 where l1: "close F w2 = (b5, w3)" by (cases "close F w2")
  obtain b6 v3 where l2: "close F v2 = (b6, v3)" by (cases "close F v2")
  from close_clock [OF f(2), of F] l1 l2 have g: "b6 = b5" "clock w3 = clock v3" by simp_all
  show ?thesis
    using c1 c2 e i1 i2 f l1 l2 g
    by (cases b1; cases b3; cases b5) (simp_all add: try_chunk_def)
qed

lemma insert_loop_clock:
  "clock w = clock v \<Longrightarrow>
     fst (insert_loop F filtered idx w) = fst (insert_loop F filtered idx v)
     \<and> clock (snd (insert_loop F filtered idx w)) = clock (snd (insert_loop F filtered idx v))"
proof (induction idx arbitrary: w v)
  case Nil
  then show ?case by simp
next
  case (Cons i rest)
  let ?batch = "take batch_size_filter (drop i filtered)"
  obtain b1 w1 where i1: "insert_many F ?batch w = (b1, w1)" by (cases "insert_many F ?batch w")
  obtain b2 v1 where i2: "insert_many F ?batch v = (b2, v1)" by (cases "insert_many F ?batch v")
  from insert_many_clock [OF Cons.prems, of F ?batch] i1 i2
  have e: "b2 = b1" "clock w1 = clock v1" by simp_all
  show ?case
  proof (cases "?batch = []")
    case True
    with Cons.IH [OF Cons.prems] show ?thesis by (simp del: take_eq_Nil take_eq_Nil2)
  next
    case False
    with Cons.IH [OF e(2)] i1 i2 e show ?thesis
      by (cases b1) (simp_all del: take_eq_Nil take_eq_Nil2)
  qed
qed

lemma vessel_step_clock:
  assumes "clock w = clock v"
  shows "fst (vessel_step F src m cnt w) = fst (vessel_step F src m cnt v)
         \<and> clock (snd (vessel_step F src m cnt w)) = clock (snd (vessel_step F src m cnt v))"
proof -
  obtain vp vf td fd where cnt: "cnt = (vp, vf, td, fd)" by (cases cnt)
  obtain r1 w1 where f1: "find_mmsi F src m w = (r1, w1)" by (cases "find_mmsi F src m w")
  obtain r2 v1 where f2: "find_mmsi F src m v = (r2, v1)" by (cases "find_mmsi F src m v")
  from find_mmsi_clock [OF assms, of F src m] f1 f2 have e: "r2 = r1" "clock w1 = clock v1"
    by simp_all
  show ?thesis
  proof (cases r1)
    case None
    with cnt f1 f2 e show ?thesis by (simp add: vessel_step_def)
  next
    case (Some docs)
    let ?fl = "filter_docs docs []"
    let ?idx = "range_step (length ?fl) batch_size_filter"
    obtain b3 w2 where l1: "insert_loop F ?fl ?idx w1 = (b3, w2)"
      by (cases "insert_loop F ?fl ?idx w1")
    obtain b4 v2 where l2: "insert_loop F ?fl ?idx v1 = (b4, v2)"
      by (cases "insert_loop F ?fl ?idx v1")
    from insert_loop_clock [OF e(2), of F ?fl ?idx] l1 l2 have g: "b4 = b3" "clock w2 = clock v2"
      by simp_all
    from cnt f1 f2 e Some l1 l2 g show ?thesis
      by (cases b3) (simp_all add: vessel_step_def Let_def)
  qed
qed

lemma vessel_loop_clock:
  "clock w = clock v \<Longrightarrow>
     fst (vessel_loop F src ms cnt w) = fst (vessel_loop F src ms cnt v)
     \<and> clock (snd (vessel_loop F src ms cnt w)) = clock (snd (vessel_loop F src ms cnt v))"
proof (induction ms arbitrary: cnt w v)
  case Nil
  then show ?case by simp
next
  case (Cons m ms)
  obtain r1 w1 where s1: "vessel_step F src m cnt w = (r1, w1)"
    by (cases "vessel_step F src m cnt w")
  obtain r2 v1 where s2: "vessel_step F src m cnt v = (r2, v1)"
    by (cases "vessel_step F src m cnt v")
  from vessel_step_clock [OF Cons.prems, of F src m cnt] s1 s2
  have e: "r2 = r1" "clock w1 = clock v1" by simp_all
  show ?case
  proof (cases r1)
    case None
    with s1 s2 e show ?thesis by simp
  next
    case (Some c)
    with Cons.IH [OF e(2), of c] s1 s2 e show ?thesis by simp
  qed
qed

lemma try_vessel_batch_clock:
  assumes "clock w = clock v"
  shows "fst (try_vessel_batch F src ms w) = fst (try_vessel_batch F src ms v)
         \<and> clock (snd (try_vessel_batch F src ms w)) = clock (snd (try_vessel_batch F src ms v))"
proof -
  obtain b1 w1 where c1: "connect F w = (b1, w1)" by (cases "connect F w")
  obtain b2 v1 where c2: "connect F v = (b2, v1)" by (cases "connect F v")
  from connect_clock [OF assms, of F] c1 c2 have e: "b2 = b1" "clock w1 = clock v1" by simp_all
  obtain r3 w2 where l1: "vessel_loop F src ms (0, 0, 0, 0) w1 = (r3, w2)"
    by (cases "vessel_loop F src ms (0, 0, 0, 0) w1")
  obtain r4 v2 where l2: "vessel_loop F src ms (0, 0, 0, 0) v1 = (r4, v2)"
    by (cases "vessel_loop F src ms (0, 0, 0, 0) v1")
  from vessel_loop_clock [OF e(2), of F src ms "(0, 0, 0, 0)"] l1 l2
  have f: "r4 = r3" "clock w2 = clock v2" by simp_all
  obtain b5 w3 where k1: "close F w2 = (b5, w3)" by (cases "close F w2")
  obtain b6 v3 where k2: "close F v2 = (b6, v3)" by (cases "close F v2")
  from close_clock [OF f(2), of F] k1 k2 have g: "b6 = b5" "clock w3 = clock v3" by simp_all
  show ?thesis
    using c1 c2 e l1 l2 f k1 k2 g
    by (cases b1; cases r3; cases b5) (simp_all add: try_vessel_batch_def)
qed

subsection \<open>The delays of each loop, from its failed attempts\<close>

lemma returned_simps [simp]: "returned (Some x)" "\<not> returned None"
  by (simp_all add: returned_def)

lemma query_delays:
  "clock v = clock w \<Longrightarrow>
     \<exists>tr. trace (query_retry_loop F [j..<M] w) = trace w @ tr
        \<and> delays tr = map (\<lambda>k. RETRY_DELAY * k)
                          [Suc j..<Suc (j + failures_from (\<lambda>b. b) (try_query F) (M - j) v)]
        \<and> attempts tr = min (Suc (failures_from (\<lambda>b. b) (try_query F) (M - j) v)) (M - j)"
proof (induction "M - j" arbitrary: j w v)
  case 0
  then show ?case by simp
next
  case (Suc d)
  then have lt: "j < M" and mj: "M - j = Suc d" and d: "d = M - Suc j" by simp_all
  from lt have up: "[j..<M] = j # [Suc j..<M]" by (simp add: upt_conv_Cons)
  obtain b1 w1 where tq: "try_query F (mark (Attempt j) w) = (b1, w1)"
    by (cases "try_query F (mark (Attempt j) w)")
  obtain b2 v1 where tv: "try_query F v = (b2, v1)" by (cases "try_query F v")
  have "clock (mark (Attempt j) w) = clock v" using Suc.prems by simp
  from try_query_clock [OF this, of F] tq tv have e: "b2 = b1" "clock w1 = clock v1" by simp_all
  from try_query_eq [OF tq] obtain tr1 where
    tr1: "trace w1 = trace w @ Attempt j # tr1" "list_all is_call tr1" by auto
  note q1 = calls_quiet [OF tr1(2)]
  show ?case
  proof (cases b1)
    case True
    with tq up have "query_retry_loop F [j..<M] w = w1" by simp
    moreover from True tv e mj have "failures_from (\<lambda>b. b) (try_query F) (M - j) v = 0" by simp
    ultimately show ?thesis using tr1 q1 mj
      by (intro exI [of _ "Attempt j # tr1"]) simp
  next
    case False
    let ?w2 = "sleep (RETRY_DELAY * (j + 1)) w1"
    from False tq up have loop: "query_retry_loop F [j..<M] w = query_retry_loop F [Suc j..<M] ?w2"
      by simp
    have c: "clock v1 = clock ?w2" using e by simp
    from Suc.hyps(1) [OF d c] obtain tr2 where
      tr2: "trace (query_retry_loop F [Suc j..<M] ?w2) = trace ?w2 @ tr2"
        "delays tr2 = map (\<lambda>k. RETRY_DELAY * k)
           [Suc (Suc j)..<Suc (Suc j + failures_from (\<lambda>b. b) (try_query F) (M - Suc j) v1)]"
        "attempts tr2 = min (Suc (failures_from (\<lambda>b. b) (try_query F) (M - Suc j) v1)) (M - Suc j)"
      by blast
    let ?f = "failures_from (\<lambda>b. b) (try_query F) (M - Suc j) v1"
    from False tv e mj d have f: "failures_from (\<lambda>b. b) (try_query F) (M - j) v = Suc ?f" by simp
    let ?tr = "Attempt j # tr1 @ Sleep (RETRY_DELAY * (j + 1)) # tr2"
    have t: "trace (query_retry_loop F [j..<M] w) = trace w @ ?tr" using loop tr1 tr2 by simp
    have "[Suc j..<Suc (j + Suc ?f)] = Suc j # [Suc (Suc j)..<Suc (Suc j + ?f)]"
      by (simp add: upt_conv_Cons)
    then have "delays ?tr = map (\<lambda>k. RETRY_DELAY * k) [Suc j..<Suc (j + Suc ?f)]"
      using q1 tr2(2) by simp
    moreover have "attempts ?tr = min (Suc (Suc ?f)) (M - j)"
      using q1 tr2(3) mj d by simp
    ultimately show ?thesis using t f by (intro exI [of _ ?tr]) simp
  qed
qed

lemma chunk_delays:
  "clock v = clock w \<Longrightarrow> chunk_loop F records M [j..<M] w = (r, w') \<Longrightarrow>
     \<exists>tr. trace w' = trace w @ tr
        \<and> delays tr = replicate
             (min (failures_from returned (try_chunk F records) (M - j) v) (M - 1 - j))
             RETRY_DELAY
        \<and> attempts tr = min (Suc (failures_from returned (try_chunk F records) (M - j) v)) (M - j)"
proof (induction "M - j" arbitrary: j w v)
  case 0
  then show ?case by simp
next
  case (Suc d)
  then have lt: "j < M" and mj: "M - j = Suc d" and d: "d = M - Suc j" by simp_all
  from lt have up: "[j..<M] = j # [Suc j..<M]" by (simp add: upt_conv_Cons)
  obtain r1 w1 where tc: "try_chunk F records (mark (Attempt j) w) = (r1, w1)"
    by (cases "try_chunk F records (mark (Attempt j) w)")
  obtain r2 v1 where tv: "try_chunk F records v = (r2, v1)" by (cases "try_chunk F records v")
  have "clock (mark (Attempt j) w) = clock v" using Suc.prems(1) by simp
  from try_chunk_clock [OF this, of F records] tc tv have e: "r2 = r1" "clock w1 = clock v1"
    by simp_all
  from try_chunk_eq [OF tc] obtain tr1 where
    tr1: "trace w1 = trace w @ Attempt j # tr1" "list_all is_call tr1" by auto
  note q1 = calls_quiet [OF tr1(2)]
  let ?F = "\<lambda>n u. failures_from returned (try_chunk F records) n u"
  show ?case
  proof (cases r1)
    case (Some n)
    with tc up Suc.prems(2) have "w' = w1" by simp
    moreover from Some tv e mj have "?F (M - j) v = 0" by simp
    ultimately show ?thesis using tr1 q1 mj
      by (intro exI [of _ "Attempt j # tr1"]) simp
  next
    case None
    from None tv e mj d have f: "?F (M - j) v = Suc (?F (M - Suc j) v1)"
      by simp
    show ?thesis
    proof (cases "int j < int M - 1")
      case True
      let ?w2 = "sleep RETRY_DELAY w1"
      from True None tc up Suc.prems(2) have loop: "chunk_loop F records M [Suc j..<M] ?w2 = (r, w')"
        by simp
      have c: "clock v1 = clock ?w2" using e by simp
      from Suc.hyps(1) [OF d c loop] obtain tr2 where
        tr2: "trace w' = trace ?w2 @ tr2"
          "delays tr2 = replicate (min (?F (M - Suc j) v1) (M - 1 - Suc j)) RETRY_DELAY"
          "attempts tr2 = min (Suc (?F (M - Suc j) v1)) (M - Suc j)"
        by blast
      let ?tr = "Attempt j # tr1 @ Sleep RETRY_DELAY # tr2"
      have t: "trace w' = trace w @ ?tr" using tr1 tr2 by simp
      from True have "M - 1 - j = Suc (M - 1 - Suc j)" by linarith
      then have "min (Suc (?F (M - Suc j) v1)) (M - 1 - j) = Suc (min (?F (M - Suc j) v1) (M - 1 - Suc j))"
        by simp
      with q1 tr2(2) f have "delays ?tr = replicate (min (?F (M - j) v) (M - 1 - j)) RETRY_DELAY"
        by simp
      moreover have "attempts ?tr = min (Suc (?F (M - j) v)) (M - j)"
        using q1 tr2(3) f mj d by simp
      ultimately show ?thesis using t by blast
    next
      case False
      with lt have z: "M - 1 - j = 0" by linarith
      obtain n2 w2 where fb: "fallback F records w1 = (n2, w2)" by (cases "fallback F records w1")
      from False None tc up Suc.prems(2) fb have "w' = w2" by simp
      with fallback_eq(1) [OF fb] tr1 have
        "trace w' = trace w @ (Attempt j # tr1 @ Fallback # Connect #
           (if F (clock w1) = Ok then replicate (length records) InsertOne @ [Close] else []))"
        by simp
      moreover have "delays (Attempt j # tr1 @ Fallback # Connect #
           (if F (clock w1) = Ok then replicate (length records) InsertOne @ [Close] else [])) = []"
        using q1 by (simp add: delays_def)
      moreover have "attempts (Attempt j # tr1 @ Fallback # Connect #
           (if F (clock w1) = Ok then replicate (length records) InsertOne @ [Close] else [])) = 1"
        using q1 by (simp add: attempts_def)
      moreover from z lt have "M - j = 1" by linarith
      ultimately show ?thesis using z f
        by (intro exI [of _ "Attempt j # tr1 @ Fallback # Connect #
           (if F (clock w1) = Ok then replicate (length records) InsertOne @ [Close] else [])"])
          simp
    qed
  qed
qed

lemma vessel_delays:
  "clock v = clock w \<Longrightarrow> vessel_batch_loop F src ms M [j..<M] w = (r, w') \<Longrightarrow>
     \<exists>tr. trace w' = trace w @ tr
        \<and> delays tr = replicate
             (min (failures_from returned (try_vessel_batch F src ms) (M - j) v) (M - 1 - j))
             RETRY_DELAY
        \<and> attempts tr = min (Suc (failures_from returned (try_vessel_batch F src ms) (M - j) v)) (M - j)"
proof (induction "M - j" arbitrary: j w v)
  case 0
  then show ?case by simp
next
  case (Suc d)
  then have lt: "j < M" and mj: "M - j = Suc d" and d: "d = M - Suc j" by simp_all
  from lt have up: "[j..<M] = j # [Suc j..<M]" by (simp add: upt_conv_Cons)
  obtain r1 w1 where tc: "try_vessel_batch F src ms (mark (Attempt j) w) = (r1, w1)"
    by (cases "try_vessel_batch F src ms (mark (Attempt j) w)")
  obtain r2 v1 where tv: "try_vessel_batch F src ms v = (r2, v1)"
    by (cases "try_vessel_batch F src ms v")
  have "clock (mark (Attempt j) w) = clock v" using Suc.prems(1) by simp
  from try_vessel_batch_clock [OF this, of F src ms] tc tv have e: "r2 = r1" "clock w1 = clock v1"
    by simp_all
  from try_vessel_batch_eq [OF tc] obtain tr1 where
    tr1: "trace w1 = trace w @ Attempt j # tr1" "list_all is_call tr1" by auto
  note q1 = calls_quiet [OF tr1(2)]
  let ?F = "\<lambda>n u. failures_from returned (try_vessel_batch F src ms) n u"
  show ?case
  proof (cases r1)
    case (Some n)
    with tc up Suc.prems(2) have "w' = w1" by simp
    moreover from Some tv e mj have "?F (M - j) v = 0" by simp
    ultimately show ?thesis using tr1 q1 mj
      by (intro exI [of _ "Attempt j # tr1"]) simp
  next
    case None
    from None tv e mj d have f: "?F (M - j) v = Suc (?F (M - Suc j) v1)"
      by simp
    show ?thesis
    proof (cases "int j < int M - 1")
      case True
      let ?w2 = "sleep RETRY_DELAY w1"
      from True None tc up Suc.prems(2) have
        loop: "vessel_batch_loop F src ms M [Suc j..<M] ?w2 = (r, w')" by simp
      have c: "clock v1 = clock ?w2" using e by simp
      from Suc.hyps(1) [OF d c loop] obtain tr2 where
        tr2: "trace w' = trace ?w2 @ tr2"
          "delays tr2 = replicate (min (?F (M - Suc j) v1) (M - 1 - Suc j)) RETRY_DELAY"
          "attempts tr2 = min (Suc (?F (M - Suc j) v1)) (M - Suc j)"
        by blast
      let ?tr = "Attempt j # tr1 @ Sleep RETRY_DELAY # tr2"
      have t: "trace w' = trace w @ ?tr" using tr1 tr2 by simp
      from True have "M - 1 - j = Suc (M - 1 - Suc j)" by linarith
      then have "min (Suc (?F (M - Suc j) v1)) (M - 1 - j) = Suc (min (?F (M - Suc j) v1) (M - 1 - Suc j))"
        by simp
      with q1 tr2(2) f have "delays ?tr = replicate (min (?F (M - j) v) (M - 1 - j)) RETRY_DELAY"
        by simp
      moreover have "attempts ?tr = min (Suc (?F (M - j) v)) (M - j)"
        using q1 tr2(3) f mj d by simp
      ultimately show ?thesis using t by blast
    next
      case False
      with lt have z: "M - 1 - j = 0" by linarith
      from False None tc up Suc.prems(2) have "w' = w1" by simp
      moreover from z lt have "M - j = 1" by linarith
      ultimately show ?thesis using tr1 q1 z f
        by (intro exI [of _ "Attempt j # tr1"]) simp
    qed
  qed
qed

lemma fails_twice_failures:
  "failures_from (\<lambda>b. b) (try_query fails_twice) 3 w0 = 2"
  "failures_from returned (try_chunk fails_twice []) 3 w0 = 2"
  by (simp_all add: numeral_3_eq_3 try_query_def try_chunk_def connect_def query_def close_def
      call_def fails_twice_def w0_def)

section \<open>The filtering rule\<close>

text \<open>
  Claim C1. For every vessel group that \<^verbatim>\<open>process_vessel_batch\<close> processes (one run of the
  body of its loop over the vessel keys): a group of fewer than 100 records writes
  nothing; a group of at least 100 records, when the step does not raise, writes exactly
  the records that pass the required-field check, each without its identifier and with
  its numeric fields coerced, in order; a step that raises has written only such
  records. For the whole function: with a store that never fails, what is written is the
  retained records of each group in turn; with any store, nothing else is ever written.
\<close>

theorem group_filtering:
  assumes "vessel_step F src mmsi cnt w = (r, w')"
  shows "(length (src mmsi) < 100 \<longrightarrow> written_since w w' = [])
       \<and> (100 \<le> length (src mmsi) \<and> r \<noteq> None \<longrightarrow>
            written_since w w'
              = map (\<lambda>d. coerce_numeric (AList.delete ''_id'' d)) (filter has_required (src mmsi)))
       \<and> set (written_since w w') \<subseteq> set (retained (src mmsi))
       \<and> written_since w (snd (process_vessel_batch all_ok src ms w))
           = concat (map (\<lambda>m. retained (src m)) ms)
       \<and> set (written_since w (snd (process_vessel_batch F src ms w)))
           \<subseteq> (\<Union>m\<in>set ms. set (retained (src m)))"
proof -
  obtain vp vf td fd where cnt: "cnt = (vp, vf, td, fd)" by (cases cnt)
  from vessel_step_eq [OF assms [unfolded cnt]] obtain ds where
    ds: "target w' = target w @ ds" "set ds \<subseteq> set (retained (src mmsi))"
      "r \<noteq> None \<longrightarrow> ds = retained (src mmsi)"
    by blast
  then have a: "length (src mmsi) < 100 \<longrightarrow> written_since w w' = []"
    and b: "100 \<le> length (src mmsi) \<and> r \<noteq> None \<longrightarrow>
            written_since w w'
              = map (\<lambda>d. coerce_numeric (AList.delete ''_id'' d)) (filter has_required (src mmsi))"
    and c: "set (written_since w w') \<subseteq> set (retained (src mmsi))"
    by (auto simp: written_since_append retained_def)
  have d: "written_since w (snd (process_vessel_batch all_ok src ms w))
           = concat (map (\<lambda>m. retained (src m)) ms)"
    using process_vessel_batch_all_ok [of src ms w] by (simp add: prod_eq_iff)
  obtain r2 w2 where
    vb: "vessel_batch_loop F src ms MAX_RETRIES [0..<MAX_RETRIES] w = (r2, w2)"
    by (cases "vessel_batch_loop F src ms MAX_RETRIES [0..<MAX_RETRIES] w")
  from vessel_batch_loop_eq [OF vb] obtain ds2 where
    "target w2 = target w @ ds2" "set ds2 \<subseteq> (\<Union>m\<in>set ms. set (retained (src m)))"
    by blast
  with vb have e: "set (written_since w (snd (process_vessel_batch F src ms w)))
           \<subseteq> (\<Union>m\<in>set ms. set (retained (src m)))"
    by (simp add: process_vessel_batch_def process_vessel_batch_retries_def written_since_append)
  from a b c d e show ?thesis by blast
qed

text \<open>
  The example of the claim: a group of 150 records of which 20 have no latitude gives
  exactly 130 written records.
\<close>

theorem group_filtering_witness:
  "length (group150 (VInt 219000001)) = 150
   \<and> length (filter (\<lambda>d. map_of d ''Latitude'' = None) (group150 (VInt 219000001))) = 20
   \<and> written_since w0 (snd (vessel_step all_ok group150 (VInt 219000001) (0, 0, 0, 0) w0))
       = replicate 130 (coerce_numeric (AList.delete ''_id'' good_doc))
   \<and> length (written_since w0 (snd (vessel_step all_ok group150 (VInt 219000001) (0, 0, 0, 0) w0)))
       = 130"
proof -
  let ?run = "vessel_step all_ok group150 (VInt 219000001) (0, 0, 0, 0) w0"
  have run: "?run = (fst ?run, snd ?run)" by simp
  have ok: "fst ?run \<noteq> None" by (rule vessel_step_all_ok [OF run])
  have len: "length (group150 (VInt 219000001)) = 150" by (simp add: group150_def)
  have lat: "length (filter (\<lambda>d. map_of d ''Latitude'' = None) (group150 (VInt 219000001))) = 20"
    by (simp add: group150_def good_doc_def no_lat_doc_def)
  have keep: "filter has_required (group150 (VInt 219000001)) = replicate 130 good_doc"
    by (simp add: group150_def has_required_good_doc has_required_no_lat_doc)
  from group_filtering [OF run, of "[]"] ok len
  have "written_since w0 (snd ?run)
          = map (\<lambda>d. coerce_numeric (AList.delete ''_id'' d))
              (filter has_required (group150 (VInt 219000001)))"
    by simp
  with keep len lat show ?thesis by simp
qed

text \<open>
  Claim C10. A vessel group of at least 100 records of which none passes the
  required-field check makes no insert call, writes nothing and leaves
  \<^verbatim>\<open>vessels_filtered\<close> as it was; and whenever the step returns, \<^verbatim>\<open>vessels_filtered\<close> has
  grown (by one) exactly when a record of the group has been written.
\<close>

theorem empty_group_not_counted:
  assumes "vessel_step F src mmsi (vp, vf, td, fd) w = (r, w')"
  shows "(100 \<le> length (src mmsi) \<and> filter has_required (src mmsi) = [] \<longrightarrow>
            bulk_inserts (events_since w w') = 0 \<and> written_since w w' = []
            \<and> (r = None \<or> r = Some (vp + 1, vf, td + int (length (src mmsi)), fd)))
       \<and> (\<forall>vp' vf' td' fd'. r = Some (vp', vf', td', fd') \<longrightarrow>
            (vf' = vf \<and> written_since w w' = []) \<or> (vf' = vf + 1 \<and> written_since w w' \<noteq> []))"
proof -
  from vessel_step_eq [OF assms] obtain tr ds where
    tr: "trace w' = trace w @ Find mmsi # tr" "list_all is_bulk_insert tr"
      "retained (src mmsi) = [] \<longrightarrow> tr = []" and
    ds: "target w' = target w @ ds" "set ds \<subseteq> set (retained (src mmsi))"
      "r \<noteq> None \<longrightarrow> ds = retained (src mmsi)" and
    r: "r = None \<or>
        r = Some (vp + 1, vf + (if retained (src mmsi) = [] then 0 else 1),
                  td + int (length (src mmsi)), fd + int (length (retained (src mmsi))))"
    by blast
  have e: "events_since w w' = Find mmsi # tr" "written_since w w' = ds"
    using tr ds by (simp_all add: events_since_append written_since_append)
  have "filter has_required (src mmsi) = [] \<Longrightarrow> retained (src mmsi) = []"
    by (simp add: retained_def)
  with tr ds r e have first: "100 \<le> length (src mmsi) \<and> filter has_required (src mmsi) = [] \<longrightarrow>
            bulk_inserts (events_since w w') = 0 \<and> written_since w w' = []
            \<and> (r = None \<or> r = Some (vp + 1, vf, td + int (length (src mmsi)), fd))"
    by auto
  have second: "\<forall>vp' vf' td' fd'. r = Some (vp', vf', td', fd') \<longrightarrow>
            (vf' = vf \<and> written_since w w' = []) \<or> (vf' = vf + 1 \<and> written_since w w' \<noteq> [])"
    using ds r e by (cases "retained (src mmsi) = []") auto
  from first second show ?thesis by blast
qed

text \<open>A group of 100 records without a latitude is counted as processed, not as retained.\<close>

theorem empty_group_not_counted_witness:
  "length (group100_bad (VInt 219000001)) = 100
   \<and> fst (vessel_step all_ok group100_bad (VInt 219000001) (0, 0, 0, 0) w0) = Some (1, 0, 100, 0)
   \<and> bulk_inserts (events_since w0 (snd (vessel_step all_ok group100_bad (VInt 219000001) (0, 0, 0, 0) w0))) = 0
   \<and> written_since w0 (snd (vessel_step all_ok group100_bad (VInt 219000001) (0, 0, 0, 0) w0)) = []"
proof -
  let ?run = "vessel_step all_ok group100_bad (VInt 219000001) (0, 0, 0, 0) w0"
  have run: "?run = (fst ?run, snd ?run)" by simp
  have ok: "fst ?run \<noteq> None" by (rule vessel_step_all_ok [OF run])
  have len: "length (group100_bad (VInt 219000001)) = 100" by (simp add: group100_bad_def)
  have none: "filter has_required (group100_bad (VInt 219000001)) = []"
    by (simp add: group100_bad_def has_required_no_lat_doc)
  from empty_group_not_counted [OF run] ok len none show ?thesis by simp
qed

section \<open>Numeric coercion and the frame of a written document\<close>

text \<open>
  Claim C6, as stated, has a parseable value rewritten to its float. The text \<^verbatim>\<open>nan\<close>
  parses (to not-a-number), and the filter writes the null value for it: the code tests
  the parsed value with \<^verbatim>\<open>pd.isna\<close>.
\<close>

theorem nan_is_nulled:
  "py_float (VStr ''nan'') = Some NaN
   \<and> map_of nan_doc ''ROT'' = Some (VStr ''nan'')
   \<and> has_required nan_doc
   \<and> map_of (coerce_numeric nan_doc) ''ROT'' = Some VNone"
  by code_simp

text \<open>
  Claim C6, amended. In a retained record, each of the numeric fields that is present is
  rewritten by the coercion rule: the null value stays, a value that parses to a float
  other than not-a-number becomes that float, and a value that does not parse, or parses
  to not-a-number, becomes the null value. The record itself is kept whatever its numeric
  fields hold: changing a numeric field never changes whether the record passes the
  required-field check, every record that passes is among the filtered ones, and the
  number of filtered records is the number of records that pass.
\<close>

theorem numeric_coercion:
  assumes "field \<in> set numeric_fields"
  shows "map_of (coerce_numeric d) field = map_option coerced (map_of d field)
       \<and> has_required (AList.update field v d) = has_required d
       \<and> (d \<in> set docs \<and> has_required d \<longrightarrow>
            coerce_numeric (AList.delete ''_id'' d) \<in> set (filter_docs docs []))
       \<and> length (filter_docs docs []) = length (filter has_required docs)"
proof -
  have "filter_docs docs [] = map (\<lambda>d. coerce_numeric (AList.delete ''_id'' d)) (filter has_required docs)"
    by (simp add: filter_docs_eq filter_map o_def has_required_delete_id)
  then show ?thesis
    using assms by (auto simp: map_of_coerce_numeric has_required_update_numeric)
qed

text \<open>The text \<^verbatim>\<open>12.5\<close> becomes the float 12.5, and the record is kept.\<close>

theorem numeric_coercion_witness:
  "map_of good_doc ''ROT'' = Some (VStr ''12.5'')
   \<and> map_of (coerce_numeric good_doc) ''ROT'' = Some (VFloat (Finite (25 / 2)))
   \<and> coerce_numeric (AList.delete ''_id'' good_doc) \<in> set (filter_docs [good_doc] [])"
proof -
  have f: "''ROT'' \<in> set numeric_fields" by (simp add: numeric_fields_def)
  have m: "map_of good_doc ''ROT'' = Some (VStr ''12.5'')" by (simp add: good_doc_def)
  from numeric_coercion [OF f, of good_doc VNone "[good_doc]"] m has_required_good_doc
  show ?thesis by (simp add: coerced_examples)
qed

text \<open>
  Claim C9. Every document that \<^verbatim>\<open>process_vessel_batch\<close> writes, under any fault schedule,
  is a source document of one of its vessel keys without the identifier and with the
  numeric fields coerced; such a document has no \<^verbatim>\<open>_id\<close>, agrees with its source
  document on every field other than \<^verbatim>\<open>_id\<close> and the four numeric fields, and has the
  keys of its source document but \<^verbatim>\<open>_id\<close>.
\<close>

theorem written_documents_frame:
  "set (written_since w (snd (process_vessel_batch F src ms w)))
     \<subseteq> (\<lambda>d. coerce_numeric (AList.delete ''_id'' d)) ` (\<Union>m\<in>set ms. set (src m))
   \<and> map_of (coerce_numeric (AList.delete ''_id'' d)) ''_id'' = None
   \<and> (k \<noteq> ''_id'' \<and> k \<notin> set numeric_fields \<longrightarrow>
        map_of (coerce_numeric (AList.delete ''_id'' d)) k = map_of d k)
   \<and> fst ` set (coerce_numeric (AList.delete ''_id'' d)) = fst ` set d - {''_id''}"
proof -
  obtain r2 w2 where
    vb: "vessel_batch_loop F src ms MAX_RETRIES [0..<MAX_RETRIES] w = (r2, w2)"
    by (cases "vessel_batch_loop F src ms MAX_RETRIES [0..<MAX_RETRIES] w")
  from vessel_batch_loop_eq [OF vb] obtain ds where
    ds: "target w2 = target w @ ds" "set ds \<subseteq> (\<Union>m\<in>set ms. set (retained (src m)))"
    by blast
  have "set (retained docs) \<subseteq> (\<lambda>d. coerce_numeric (AList.delete ''_id'' d)) ` set docs" for docs
    by (auto simp: retained_def)
  with ds(2) have "set ds \<subseteq> (\<lambda>d. coerce_numeric (AList.delete ''_id'' d)) ` (\<Union>m\<in>set ms. set (src m))"
    by blast
  with vb ds(1) have a: "set (written_since w (snd (process_vessel_batch F src ms w)))
     \<subseteq> (\<lambda>d. coerce_numeric (AList.delete ''_id'' d)) ` (\<Union>m\<in>set ms. set (src m))"
    by (simp add: process_vessel_batch_def process_vessel_batch_retries_def written_since_append)
  have b: "map_of (coerce_numeric (AList.delete ''_id'' d)) ''_id'' = None"
    by (simp add: map_of_coerce_numeric numeric_fields_def delete_conv')
  have c: "k \<noteq> ''_id'' \<and> k \<notin> set numeric_fields \<longrightarrow>
        map_of (coerce_numeric (AList.delete ''_id'' d)) k = map_of d k"
    by (simp add: map_of_coerce_numeric)
  have "fst ` set (AList.delete ''_id'' d) = fst ` set d - {''_id''}"
    using arg_cong [OF delete_keys [of "''_id''" d], of set] by simp
  then have e: "fst ` set (coerce_numeric (AList.delete ''_id'' d)) = fst ` set d - {''_id''}"
    by (simp add: keys_coerce_numeric)
  from a b c e show ?thesis by blast
qed

text \<open>The vessel key and the navigational status of a record are written as they were.\<close>

theorem written_documents_frame_witness:
  "map_of good_doc ''_id'' = Some (VObjectId 1)
   \<and> coerce_numeric (AList.delete ''_id'' good_doc)
       \<in> set (written_since w0 (snd (process_vessel_batch all_ok group150 [VInt 219000001] w0)))
   \<and> map_of (coerce_numeric (AList.delete ''_id'' good_doc)) ''_id'' = None
   \<and> map_of (coerce_numeric (AList.delete ''_id'' good_doc)) ''MMSI'' = Some (VInt 219000001)
   \<and> map_of (coerce_numeric (AList.delete ''_id'' good_doc)) ''Navigational status''
       = Some (VStr ''Under way using engine'')"
proof -
  let ?run = "process_vessel_batch all_ok group150 [VInt 219000001] w0"
  have run: "?run = (fst ?run, snd ?run)" by simp
  have "retained (group150 (VInt 219000001))
          = replicate 130 (coerce_numeric (AList.delete ''_id'' good_doc))"
    by (simp add: retained_def group150_def has_required_good_doc has_required_no_lat_doc)
  with process_vessel_batch_all_ok [OF run]
  have "written_since w0 (snd ?run) = replicate 130 (coerce_numeric (AList.delete ''_id'' good_doc))"
    by simp
  then have m: "coerce_numeric (AList.delete ''_id'' good_doc) \<in> set (written_since w0 (snd ?run))"
    by simp
  from m written_documents_frame [of w0 all_ok group150 "[VInt 219000001]" good_doc "''MMSI''"]
    written_documents_frame [of w0 all_ok group150 "[VInt 219000001]" good_doc
      "''Navigational status''"]
  show ?thesis by (simp add: numeric_fields_def good_doc_def)
qed

section \<open>Counters\<close>

text \<open>
  Claim C8. \<^verbatim>\<open>process_vessel_batch\<close> always returns four counters, under any fault
  schedule, and they satisfy: all four are non-negative, \<^verbatim>\<open>vessels_filtered\<close> is at most
  \<^verbatim>\<open>vessels_processed\<close>, and \<^verbatim>\<open>filtered_docs\<close> is at most \<^verbatim>\<open>total_docs\<close>.
\<close>

theorem counters_invariant:
  "\<exists>vp vf td fd. fst (process_vessel_batch F src ms w) = Some (vp, vf, td, fd)
      \<and> 0 \<le> vp \<and> 0 \<le> vf \<and> 0 \<le> td \<and> 0 \<le> fd \<and> vf \<le> vp \<and> fd \<le> td"
proof -
  have m: "0 < MAX_RETRIES" by (simp add: MAX_RETRIES_def)
  show ?thesis
  proof (rule process_vessel_batch_result [OF m, of F src ms w])
    fix w'
    assume "process_vessel_batch_retries MAX_RETRIES F src ms w = (Some (0, 0, 0, 0), w')"
    then show ?thesis by (simp add: process_vessel_batch_def)
  next
    fix w'
    assume a: "process_vessel_batch_retries MAX_RETRIES F src ms w = (Some (batch_counters src ms), w')"
    obtain vp vf td fd where b: "batch_counters src ms = (vp, vf, td, fd)"
      by (cases "batch_counters src ms")
    from batch_counters_ok [OF b] a b show ?thesis by (simp add: process_vessel_batch_def)
  qed
qed

section \<open>Retries, backoff and the last resort\<close>

text \<open>
  Claim C2. With \<^verbatim>\<open>MAX_RETRIES = M\<close>, the try body of \<^verbatim>\<open>process_chunk\<close> is entered at
  most \<open>M\<close> times and makes at most \<open>M\<close> bulk inserts; the last resort is entered at most
  once, and once it has started no try body and no bulk insert follows. The try body of
  \<^verbatim>\<open>process_vessel_batch\<close> is entered at most \<open>M\<close> times and that function has no last
  resort. The retry loop of the query demo reconnects at most \<open>M\<close> times. The two
  workers return a result under every fault schedule.
\<close>

theorem retry_bound:
  "attempts (events_since w (snd (process_chunk_retries M F records w))) \<le> M
   \<and> bulk_inserts (events_since w (snd (process_chunk_retries M F records w))) \<le> M
   \<and> fallbacks (events_since w (snd (process_chunk_retries M F records w))) \<le> 1
   \<and> attempts (dropWhile (\<lambda>e. e \<noteq> Fallback)
        (events_since w (snd (process_chunk_retries M F records w)))) = 0
   \<and> bulk_inserts (dropWhile (\<lambda>e. e \<noteq> Fallback)
        (events_since w (snd (process_chunk_retries M F records w)))) = 0
   \<and> attempts (events_since w (snd (process_vessel_batch_retries M F src ms w))) \<le> M
   \<and> fallbacks (events_since w (snd (process_vessel_batch_retries M F src ms w))) = 0
   \<and> attempts (events_since w (query_retries M F w)) \<le> M
   \<and> fst (process_chunk F records w) \<noteq> None
   \<and> fst (process_vessel_batch F src ms w) \<noteq> None"
proof -
  obtain pre post where
    c: "events_since w (snd (process_chunk_retries M F records w)) = pre @ post"
      "attempts pre \<le> M" "bulk_inserts pre \<le> M" "fallbacks pre = 0"
      "attempts post = 0" "bulk_inserts post = 0" "fallbacks post \<le> 1"
    by (rule process_chunk_retries_eq)
  obtain tr where
    v: "events_since w (snd (process_vessel_batch_retries M F src ms w)) = tr"
      "attempts tr \<le> M" "fallbacks tr = 0"
    by (rule process_vessel_batch_retries_eq)
  from query_retry_loop_eq [OF refl, of F "[0..<M]" w] obtain tq where
    "trace (query_retries M F w) = trace w @ tq" "attempts tq \<le> M"
    by (auto simp: query_retries_def)
  then have q: "attempts (events_since w (query_retries M F w)) \<le> M"
    by (simp add: events_since_append)
  have a: "attempts (dropWhile (\<lambda>e. e \<noteq> Fallback) (pre @ post)) = 0"
    using attempts_dropWhile [of "\<lambda>e. e \<noteq> Fallback" post] c(5)
    by (simp add: after_fallback [OF c(4)])
  have b: "bulk_inserts (dropWhile (\<lambda>e. e \<noteq> Fallback) (pre @ post)) = 0"
    using bulk_inserts_dropWhile [of "\<lambda>e. e \<noteq> Fallback" post] c(6)
    by (simp add: after_fallback [OF c(4)])
  have m: "0 < MAX_RETRIES" by (simp add: MAX_RETRIES_def)
  have r1: "fst (process_chunk F records w) \<noteq> None"
    using process_chunk_returns [OF m] by (simp add: process_chunk_def)
  have r2: "fst (process_vessel_batch F src ms w) \<noteq> None"
    using process_vessel_batch_returns [OF m] by (simp add: process_vessel_batch_def)
  from c v a b q r1 r2 show ?thesis by simp
qed

text \<open>
  Claim C4, as stated, has the delay after failed attempt \<open>k\<close> equal to the base delay
  times \<open>k\<close>. Against a store that always fails, \<^verbatim>\<open>process_chunk\<close> sleeps the base delay
  after the first failed attempt and the base delay again after the second.
\<close>

theorem constant_delay_in_process_chunk:
  "delays (trace (snd (process_chunk always_fail [] w0))) = [RETRY_DELAY, RETRY_DELAY]
   \<and> [RETRY_DELAY, RETRY_DELAY] \<noteq> [RETRY_DELAY * 1, RETRY_DELAY * 2]"
  by (simp add: process_chunk_def process_chunk_retries_def MAX_RETRIES_def
      upt_rec try_chunk_def fallback_def connect_def call_def always_fail_def w0_def mark_def
      sleep_def RETRY_DELAY_def)

text \<open>
  Claim C4, amended. A failed attempt is a run of the try body that raises; the failed
  attempts of a loop are counted by \<open>failures_from\<close>, from the outcomes of the store calls
  alone. In the retry loop of the query demo every failed attempt is followed by a
  sleep, and the delay after failed attempt \<open>k\<close> (counted from 1) is
  \<^verbatim>\<open>RETRY_DELAY * k\<close>: with \<open>n\<close> failed attempts the delays are \<^verbatim>\<open>RETRY_DELAY\<close> times
  1, 2, ..., \<open>n\<close>. In \<^verbatim>\<open>process_chunk\<close> and \<^verbatim>\<open>process_vessel_batch\<close> every failed attempt
  but the \<open>M\<close>-th is followed by a sleep of the constant \<^verbatim>\<open>RETRY_DELAY\<close>: with \<open>n\<close> failed
  attempts there are \<open>min n (M - 1)\<close> delays, each \<^verbatim>\<open>RETRY_DELAY\<close>. Each loop enters its
  try body once more than it has failed attempts, and at most \<open>M\<close> times. In each of the
  three the delays never decrease: the second is at least as long as the first.
\<close>

theorem backoff_delays:
  "delays (events_since w (query_retries M F w))
     = map (\<lambda>k. RETRY_DELAY * k) [1..<Suc (failures_from (\<lambda>b. b) (try_query F) M w)]
   \<and> delays (events_since w (snd (process_chunk_retries M F records w)))
     = replicate (min (failures_from returned (try_chunk F records) M w) (M - 1))
         RETRY_DELAY
   \<and> delays (events_since w (snd (process_vessel_batch_retries M F src ms w)))
     = replicate (min (failures_from returned (try_vessel_batch F src ms) M w) (M - 1))
         RETRY_DELAY
   \<and> attempts (events_since w (query_retries M F w))
     = min (Suc (failures_from (\<lambda>b. b) (try_query F) M w)) M
   \<and> attempts (events_since w (snd (process_chunk_retries M F records w)))
     = min (Suc (failures_from returned (try_chunk F records) M w)) M
   \<and> attempts (events_since w (snd (process_vessel_batch_retries M F src ms w)))
     = min (Suc (failures_from returned (try_vessel_batch F src ms) M w)) M
   \<and> failures_from (\<lambda>b. b) (try_query F) M w \<le> M
   \<and> failures_from returned (try_chunk F records) M w \<le> M
   \<and> failures_from returned (try_vessel_batch F src ms) M w \<le> M
   \<and> sorted (delays (events_since w (query_retries M F w)))
   \<and> sorted (delays (events_since w (snd (process_chunk_retries M F records w))))
   \<and> sorted (delays (events_since w (snd (process_vessel_batch_retries M F src ms w))))"
proof -
  from query_delays [OF refl, of F 0 M w] have
    q: "delays (events_since w (query_retries M F w))
          = map (\<lambda>k. RETRY_DELAY * k) [1..<Suc (failures_from (\<lambda>b. b) (try_query F) M w)]"
    and qa: "attempts (events_since w (query_retries M F w))
          = min (Suc (failures_from (\<lambda>b. b) (try_query F) M w)) M"
    by (auto simp: query_retries_def events_since_append)
  have qs: "sorted (map (\<lambda>k. RETRY_DELAY * k) [1..<Suc n])" for n
    by (simp add: sorted_map sorted_wrt_iff_nth_less del: upt_Suc)
  obtain r1 w1 where c1: "chunk_loop F records M [0..<M] w = (r1, w1)"
    by (cases "chunk_loop F records M [0..<M] w")
  from chunk_delays [OF refl c1] have
    c: "delays (events_since w (snd (process_chunk_retries M F records w)))
          = replicate (min (failures_from returned (try_chunk F records) M w) (M - 1))
              RETRY_DELAY"
    and ca: "attempts (events_since w (snd (process_chunk_retries M F records w)))
          = min (Suc (failures_from returned (try_chunk F records) M w)) M"
    using c1 by (auto simp: process_chunk_retries_def events_since_append)
  obtain r2 w2 where v2: "vessel_batch_loop F src ms M [0..<M] w = (r2, w2)"
    by (cases "vessel_batch_loop F src ms M [0..<M] w")
  from vessel_delays [OF refl v2] have
    v: "delays (events_since w (snd (process_vessel_batch_retries M F src ms w)))
          = replicate (min (failures_from returned (try_vessel_batch F src ms) M w) (M - 1))
              RETRY_DELAY"
    and va: "attempts (events_since w (snd (process_vessel_batch_retries M F src ms w)))
          = min (Suc (failures_from returned (try_vessel_batch F src ms) M w)) M"
    using v2 by (auto simp: process_vessel_batch_retries_def events_since_append)
  show ?thesis
    unfolding q c v qa ca va using qs by (simp only: sorted_replicate failures_from_le simp_thms)
qed

text \<open>
  A store that refuses its first two calls: two failed attempts, then a success. The
  query demo sleeps 5 and then 10 seconds, \<^verbatim>\<open>process_chunk\<close> sleeps 5 and then 5.
\<close>

theorem backoff_delays_witness:
  "failures_from (\<lambda>b. b) (try_query fails_twice) 3 w0 = 2
   \<and> attempts (events_since w0 (query_retries 3 fails_twice w0)) = 3
   \<and> delays (events_since w0 (query_retries 3 fails_twice w0)) = [5, 10]
   \<and> failures_from returned (try_chunk fails_twice []) 3 w0 = 2
   \<and> attempts (events_since w0 (snd (process_chunk_retries 3 fails_twice [] w0))) = 3
   \<and> delays (events_since w0 (snd (process_chunk_retries 3 fails_twice [] w0))) = [5, 5]"
  using backoff_delays [of w0 3 fails_twice "[]" no_docs "[]"]
  by (simp add: fails_twice_failures RETRY_DELAY_def upt_rec numeral_2_eq_2)




section \<open>The chunker and the start of main\<close>

text \<open>
  Claim C5. The chunks fed to the workers should partition the first \<open>min R T\<close> rows, and
  the rows emitted should never exceed the ceiling \<open>T\<close>. With chunk size 5, ceiling 12 and
  fifteen rows in the file, \<^verbatim>\<open>main\<close> reads three chunks in one batch; the truncation test
  compares against \<^verbatim>\<open>total_inserted\<close>, which is still 0 while the batch is read, so no
  chunk is cut: all fifteen rows are emitted, three more than the ceiling.
\<close>

theorem chunker_exceeds_ceiling:
  "concat (emitted 5 12 count_all rows15) = rows15
   \<and> length (concat (emitted 5 12 count_all rows15)) = 15
   \<and> concat (emitted 5 12 count_all rows15) \<noteq> take (min 15 12) rows15"
  by code_simp

text \<open>
  Claim C7, as stated, asks for a non-zero outcome when the input file cannot be opened.
  \<^verbatim>\<open>main\<close> prints its message and returns; the script ends with status 0.
\<close>

theorem main_missing_file_exit_zero:
  "snd (main CHUNK_SIZE TARGET_ROWS env_missing) = 0"
  by (simp add: main_def env_missing_def)

text \<open>
  Claim C7, amended. If the input file does not exist, or opening it raises, the run ends
  before any store connection is attempted and before any chunk is handed to a worker,
  with exactly one message (file not found, or the unhandled error); the exit status
  is 0.
\<close>

theorem main_source_unreadable:
  assumes "\<not> csv_exists env \<or> csv_rows env = None"
  shows "filter is_store_event (fst (main C T env)) = []
         \<and> filter is_say (fst (main C T env))
             = [Say (if \<not> csv_exists env then CsvNotFound else UnhandledError)]
         \<and> snd (main C T env) = 0"
  using assms by (auto simp: main_def)

theorem main_source_unreadable_witness:
  "filter is_store_event (fst (main CHUNK_SIZE TARGET_ROWS env_missing)) = []
   \<and> filter is_say (fst (main CHUNK_SIZE TARGET_ROWS env_missing)) = [Say CsvNotFound]
   \<and> snd (main CHUNK_SIZE TARGET_ROWS env_missing) = 0"
  using main_source_unreadable [of env_missing CHUNK_SIZE TARGET_ROWS]
  by (simp add: env_missing_def)

end
